theory Spec2Isabelle
  imports Complex_Main "HOL-Library.Word" "HOL-Library.Multiset"
begin

unbundle bit_operations_syntax

section \<open>gsIetiMapper: dof bookkeeping for IETI solvers\<close>

text \<open>
  A shallow embedding of \<^verbatim>\<open>src/gsIeti/gsIetiMapper.hpp\<close>. The type \<^verbatim>\<open>index_t\<close> is a signed
  machine integer; sizes and indices that the code never makes negative are \<open>nat\<close>, and
  the quantities the code computes with \<^verbatim>\<open>n-1\<close> on a possibly empty container are \<open>int\<close>.
  The scalar type \<^verbatim>\<open>T\<close> is \<open>real\<close>: the mapper copies coefficients and writes \<open>1\<close> and \<open>-1\<close>;
  the one division (in \<^verbatim>\<open>assembleAverage\<close>) is exact here and rounded in the program.
  A failing \<^verbatim>\<open>GISMO_ASSERT\<close> is an error value; the three kinds follow the taxonomy of the
  specification.
\<close>

datatype error = ConfigurationError | SequencingError | InternalInvariantViolation

subsection \<open>The collaborators the mapper consumes\<close>

text \<open>
  \<^verbatim>\<open>gsDofMapper\<close> (gsCore) is not among the sources. The global mapper is taken as a
  parameter: a record of the queries that the mapper code calls on it, with \<open>index dm i k\<close>
  for \<^verbatim>\<open>index(i,k)\<close>.
\<close>

record gsDofMapper =
  componentsSize :: nat
  numPatches :: nat
  patchSize :: "nat \<Rightarrow> nat"
  freeSize :: nat
  coupledSize :: nat
  index :: "nat \<Rightarrow> nat \<Rightarrow> nat"
  bindex :: "nat \<Rightarrow> nat \<Rightarrow> nat"
  cindex :: "nat \<Rightarrow> nat \<Rightarrow> nat"
  is_free_index :: "nat \<Rightarrow> bool"
  is_boundary_index :: "nat \<Rightarrow> bool"
  is_coupled_index :: "nat \<Rightarrow> bool"
  preImage :: "nat \<Rightarrow> (nat \<times> nat) list"

definition is_free :: "gsDofMapper \<Rightarrow> nat \<Rightarrow> nat \<Rightarrow> bool" where
  "is_free dm i k = is_free_index dm (index dm i k)"


text \<open>
  \<^verbatim>\<open>gsMultiBasis\<close>: the parametric dimension, the size of each piece, the basis function
  at each corner of a piece, and the indices of the basis functions that live on a
  component of a piece (\<^verbatim>\<open>componentBasis_withIndices\<close>).
\<close>

record patchComponent =
  pc_patch :: nat
  pc_dim :: nat
  pc_index :: nat

record gsMultiBasis =
  mb_dim :: nat
  mb_size :: "nat list"
  functionAtCorner :: "nat \<Rightarrow> nat \<Rightarrow> nat"
  componentBasis_withIndices :: "patchComponent \<Rightarrow> nat list"

definition nBases :: "gsMultiBasis \<Rightarrow> nat" where
  "nBases mb = length (mb_size mb)"

text \<open>
  Modelled from the spec: \<^verbatim>\<open>boxCorner::getFirst(dim)\<close> to \<^verbatim>\<open>boxCorner::getEnd(dim)\<close> (gsCore,
  not among the sources) runs over every geometric corner of the parameter domain, of
  which a \<open>dim\<close>-dimensional box has \<open>2 ^ dim\<close>, numbered from 1.
\<close>

definition boxCorners :: "nat \<Rightarrow> nat list" where
  "boxCorners d = [1 ..< 2 ^ d + 1]"

text \<open>
  \<^verbatim>\<open>gsMultiPatch\<close>: the geometry, with its topological components and the moments that
  \<^verbatim>\<open>gsGenericAssembler::assembleMoments\<close> returns for a component.
\<close>

record gsMultiPatch =
  nPatches :: nat
  parDim :: nat
  allComponents :: "patchComponent list list"
  assembleMoments :: "patchComponent \<Rightarrow> real list"

subsection \<open>Local dof mappers\<close>

text \<open>
  Modelled from the spec: \<^verbatim>\<open>gsDofMapper::setIdentity\<close>, \<^verbatim>\<open>eliminateDof\<close> and \<^verbatim>\<open>finalize\<close>
  (gsCore, not among the sources). The spec: build an identity local mapper over
  \<open>patchSize[k]\<close> entries; eliminate every local index whose global image is a boundary
  index; finalize to assign contiguous local free indices; the boundary values are
  copied using a local boundary re-index. A local mapper is the list of its eliminated
  flags; finalizing numbers the free dofs \<open>0, 1, \<dots>\<close> in order and the eliminated ones
  after them.
\<close>

type_synonym localMapper = "bool list"

definition setIdentity :: "nat \<Rightarrow> localMapper" where
  "setIdentity nDofs = replicate nDofs False"

definition eliminateDof :: "nat \<Rightarrow> localMapper \<Rightarrow> localMapper" where
  "eliminateDof i lm = lm[i := True]"

definition l_freeSize :: "localMapper \<Rightarrow> nat" where
  "l_freeSize lm = length (filter Not lm)"

definition l_boundarySize :: "localMapper \<Rightarrow> nat" where
  "l_boundarySize lm = length (filter id lm)"

definition l_is_free :: "localMapper \<Rightarrow> nat \<Rightarrow> bool" where
  "l_is_free lm i = (\<not> lm ! i)"

definition l_index :: "localMapper \<Rightarrow> nat \<Rightarrow> nat" where
  "l_index lm i =
     (if lm ! i then l_freeSize lm + length (filter id (take i lm))
      else length (filter Not (take i lm)))"

definition l_bindex :: "localMapper \<Rightarrow> nat \<Rightarrow> nat" where
  "l_bindex lm i = l_index lm i - l_freeSize lm"

definition l_is_free_index :: "localMapper \<Rightarrow> nat \<Rightarrow> bool" where
  "l_is_free_index lm idx = (idx < l_freeSize lm)"

text \<open>
  Modelled from the spec: \<^verbatim>\<open>gsDofMapper::inverseOnPatch\<close> (not among the sources), the map
  from the numbering of a local mapper back to the declared local indices; the local
  index space is a bijection. Reading a \<^verbatim>\<open>std::map\<close> at an absent key gives 0.
\<close>

definition l_inverse :: "localMapper \<Rightarrow> nat \<Rightarrow> nat" where
  "l_inverse lm r =
     (case find (\<lambda>i. l_index lm i = r) [0 ..< length lm] of Some i \<Rightarrow> i | None \<Rightarrow> 0)"

subsection \<open>Sparse vectors and jump matrices\<close>

text \<open>
  A sparse vector is its size and its stored entries in index order; assigning to a
  coefficient stores an entry. A jump matrix is its shape and the triplets
  (row, column, value) it was set from.
\<close>

record SparseVector =
  sv_size :: nat
  sv_entries :: "(nat \<times> real) list"

text \<open>Storing under a key in a container that is kept in key order.\<close>

fun ord_insert :: "nat \<Rightarrow> 'a \<Rightarrow> (nat \<times> 'a) list \<Rightarrow> (nat \<times> 'a) list" where
  "ord_insert i v [] = [(i, v)]"
| "ord_insert i v ((j, w) # es) =
     (if i = j then (i, v) # es
      else if i < j then (i, v) # (j, w) # es
      else (j, w) # ord_insert i v es)"

definition sv_assign :: "nat \<Rightarrow> real \<Rightarrow> SparseVector \<Rightarrow> SparseVector" where
  "sv_assign i v c = c\<lparr>sv_entries := ord_insert i v (sv_entries c)\<rparr>"

definition sv_zero :: "nat \<Rightarrow> SparseVector" where
  "sv_zero n = \<lparr>sv_size = n, sv_entries = []\<rparr>"

definition nonZeros :: "SparseVector \<Rightarrow> nat" where
  "nonZeros c = length (sv_entries c)"

record JumpMatrix =
  jm_rows :: int
  jm_cols :: nat
  jm_entries :: "(nat \<times> nat \<times> real) list"

subsection \<open>The mapper object\<close>

record gsIetiMapper =
  m_multiBasis :: gsMultiBasis
  m_dofMapperGlobal :: gsDofMapper
  m_dofMapperLocal :: "localMapper list"
  m_fixedPart :: "real list list"
  m_jumpMatrices :: "JumpMatrix list"
  m_nPrimalDofs :: nat
  m_primalConstraints :: "SparseVector list list"
  m_primalDofIndices :: "int list list"
  m_status :: "32 word"
  m_artificialDofInfo :: "(nat \<times> nat list) list list"


text \<open>A dense matrix is its number of columns and the list of its rows.\<close>

record Matrix =
  mx_cols :: nat
  mx_row :: "real list list"

definition setZero :: "nat \<Rightarrow> nat \<Rightarrow> Matrix" where
  "setZero r c = \<lparr>mx_cols = c, mx_row = replicate r (replicate c 0)\<rparr>"

subsection \<open>init\<close>

text \<open>
  The local mapper of patch \<open>k\<close> (lines 79 to 88): the identity over \<open>patchSize(k)\<close> dofs,
  with every dof eliminated whose global index is a boundary index.
\<close>

definition localMapperOf :: "gsDofMapper \<Rightarrow> nat \<Rightarrow> localMapper" where
  "localMapperOf dm k =
     (let nDofs = patchSize dm k
      in fold (\<lambda>i lm. if is_boundary_index dm (index dm i k) then eliminateDof i lm else lm)
           [0 ..< nDofs] (setIdentity nDofs))"

text \<open>The fixed part of patch \<open>k\<close> (lines 90 to 101); \<open>fixedPart\<close> is a column.\<close>

definition fixedPartOf :: "gsDofMapper \<Rightarrow> localMapper \<Rightarrow> real list \<Rightarrow> nat \<Rightarrow> real list" where
  "fixedPartOf dm lm fixedPart k =
     fold (\<lambda>i fp. if is_boundary_index dm (index dm i k)
                   then fp[l_bindex lm i := fixedPart ! bindex dm i k] else fp)
       [0 ..< patchSize dm k] (replicate (l_boundarySize lm) 0)"

fun initPatches :: "real list \<Rightarrow> nat list \<Rightarrow> gsIetiMapper \<Rightarrow> error + gsIetiMapper" where
  "initPatches fixedPart [] st = Inr st"
| "initPatches fixedPart (k # ks) st =
     (let dm = m_dofMapperGlobal st; nDofs = patchSize dm k
      in if \<not> nDofs \<ge> mb_size (m_multiBasis st) ! k then Inl ConfigurationError
         else
           let st1 = (if nDofs > mb_size (m_multiBasis st) ! k
                      then st\<lparr>m_status := m_status st OR 2\<rparr> else st);
               lm = localMapperOf dm k
           in initPatches fixedPart ks
                (st1\<lparr>m_dofMapperLocal := (m_dofMapperLocal st1)[k := lm],
                     m_fixedPart := (m_fixedPart st1)[k := fixedPartOf dm lm fixedPart k]\<rparr>))"

text \<open>
  The first pass over the real dofs (lines 111 to 125): \<open>dofs\<close> holds, for each free
  global dof, the patch and the local index plus one.
\<close>

fun artificialOwners ::
  "gsIetiMapper \<Rightarrow> (nat \<times> nat) list \<Rightarrow> (nat \<times> nat) list \<Rightarrow> error + (nat \<times> nat) list" where
  "artificialOwners st [] dofs = Inr dofs"
| "artificialOwners st ((k, i) # ps) dofs =
     (let dm = m_dofMapperGlobal st; globalIndex = index dm i k
      in if is_free_index dm globalIndex
         then if \<not> fst (dofs ! globalIndex) = 0 then Inl InternalInvariantViolation
              else artificialOwners st ps
                     (dofs[globalIndex := (k, l_index (m_dofMapperLocal st ! k) i + 1)])
         else artificialOwners st ps dofs)"

definition map_at :: "(nat \<times> 'a list) list \<Rightarrow> nat \<Rightarrow> 'a list" where
  "map_at m key = (case map_of m key of Some v \<Rightarrow> v | None \<Rightarrow> [])"

text \<open>The second pass over the artificial dofs (lines 127 to 146).\<close>

fun artificialInfo ::
  "gsIetiMapper \<Rightarrow> (nat \<times> nat) list \<Rightarrow> (nat \<times> nat) list \<Rightarrow>
     (nat \<times> nat list) list list \<Rightarrow> error + (nat \<times> nat list) list list" where
  "artificialInfo st dofs [] info = Inr info"
| "artificialInfo st dofs ((k, i) # ps) info =
     (let dm = m_dofMapperGlobal st; globalIndex = index dm i k
      in if is_free_index dm globalIndex
         then
           let otherPatch = fst (dofs ! globalIndex);
               indexOnOtherPatch = int (snd (dofs ! globalIndex)) - 1
           in if \<not> indexOnOtherPatch \<ge> 0 then Inl InternalInvariantViolation
              else
                let which0 = map_at (info ! otherPatch) k;
                    which = (if length which0 = 0
                             then replicate (l_freeSize (m_dofMapperLocal st ! otherPatch)) 0
                             else which0)
                in artificialInfo st dofs ps
                     (info[otherPatch :=
                        ord_insert k (which[nat indexOnOtherPatch := i + 1]) (info ! otherPatch)])
         else artificialInfo st dofs ps info)"

definition realDofs :: "gsIetiMapper \<Rightarrow> (nat \<times> nat) list" where
  "realDofs st =
     concat (map (\<lambda>k. map (\<lambda>i. (k, i)) [0 ..< mb_size (m_multiBasis st) ! k])
               [0 ..< numPatches (m_dofMapperGlobal st)])"

definition artificialDofs :: "gsIetiMapper \<Rightarrow> (nat \<times> nat) list" where
  "artificialDofs st =
     concat (map (\<lambda>k. map (\<lambda>i. (k, i))
                        [mb_size (m_multiBasis st) ! k ..< patchSize (m_dofMapperGlobal st) k])
               [0 ..< numPatches (m_dofMapperGlobal st)])"

definition resize :: "nat \<Rightarrow> 'a list list \<Rightarrow> 'a list list" where
  "resize n xs = take n xs @ replicate (n - length xs) []"

definition init ::
  "gsMultiBasis \<Rightarrow> gsDofMapper \<Rightarrow> real list \<Rightarrow> gsIetiMapper \<Rightarrow> error + gsIetiMapper" where
  "init multiBasis dofMapperGlobal fixedPart st =
     (if \<not> componentsSize dofMapperGlobal = 1 then Inl ConfigurationError
      else if \<not> numPatches dofMapperGlobal = nBases multiBasis then Inl ConfigurationError
      else
        let nPatches = numPatches dofMapperGlobal;
            st0 = st\<lparr>m_multiBasis := multiBasis,
                     m_dofMapperGlobal := dofMapperGlobal,
                     m_dofMapperLocal := replicate nPatches [],
                     m_fixedPart := replicate nPatches [],
                     m_jumpMatrices := [],
                     m_nPrimalDofs := 0,
                     m_primalConstraints := replicate nPatches [],
                     m_primalDofIndices := replicate nPatches [],
                     m_status := 1\<rparr>
        in case initPatches fixedPart [0 ..< nPatches] st0 of
             Inl e \<Rightarrow> Inl e
           | Inr st1 \<Rightarrow>
               if m_status st1 AND 2 \<noteq> 0
               then
                 (case artificialOwners st1 (realDofs st1)
                         (replicate (freeSize dofMapperGlobal) (0, 0)) of
                    Inl e \<Rightarrow> Inl e
                  | Inr dofs \<Rightarrow>
                      (case artificialInfo st1 dofs (artificialDofs st1)
                              (resize nPatches (m_artificialDofInfo st1)) of
                         Inl e \<Rightarrow> Inl e
                       | Inr info \<Rightarrow> Inr (st1\<lparr>m_artificialDofInfo := info\<rparr>)))
               else Inr st1)"

subsection \<open>constructGlobalSolutionFromLocalSolutions\<close>

definition constructGlobalSolutionFromLocalSolutions ::
  "gsIetiMapper \<Rightarrow> Matrix list \<Rightarrow> error + Matrix" where
  "constructGlobalSolutionFromLocalSolutions st localContribs =
     (if m_status st AND 1 = 0 then Inl SequencingError
      else
        let dm = m_dofMapperGlobal st; nPatches = numPatches dm
        in if \<not> nPatches = length localContribs then Inl ConfigurationError
           else
             let result = setZero (freeSize dm) (mx_cols (localContribs ! 0))
             in Inr (fold (\<lambda>k result.
                       fold (\<lambda>i result.
                          if l_is_free (m_dofMapperLocal st ! k) i \<and> is_free dm i k
                          then result\<lparr>mx_row := (mx_row result)[index dm i k :=
                                  mx_row (localContribs ! k) ! l_index (m_dofMapperLocal st ! k) i]\<rparr>
                          else result)
                         [0 ..< mb_size (m_multiBasis st) ! k] result)
                       [0 ..< nPatches] result))"

subsection \<open>Sorting\<close>

text \<open>
  \<^verbatim>\<open>std::sort\<close> is not stable: it returns some rearrangement of its input in which no
  element is less than an earlier one, and which one is not fixed. The functions that
  sort take the rearrangement as the parameter \<open>srt\<close>; \<open>std_sort lt srt\<close> is the contract
  of \<^verbatim>\<open>std::sort\<close> for the order \<open>lt\<close>, and \<open>sort_by lt\<close> is one function that meets it.
\<close>

definition std_sort :: "('a \<Rightarrow> 'a \<Rightarrow> bool) \<Rightarrow> ('a list \<Rightarrow> 'a list) \<Rightarrow> bool" where
  "std_sort lt srt \<longleftrightarrow>
     (\<forall>xs. mset (srt xs) = mset xs \<and> sorted_wrt (\<lambda>a b. \<not> lt b a) (srt xs))"

fun insert_by :: "('a \<Rightarrow> 'a \<Rightarrow> bool) \<Rightarrow> 'a \<Rightarrow> 'a list \<Rightarrow> 'a list" where
  "insert_by lt x [] = [x]"
| "insert_by lt x (y # ys) =
     (if lt y x then y # insert_by lt x ys else x # y # ys)"

definition sort_by :: "('a \<Rightarrow> 'a \<Rightarrow> bool) \<Rightarrow> 'a list \<Rightarrow> 'a list" where
  "sort_by lt xs = foldr (insert_by lt) xs []"

subsection \<open>cornersAsPrimals\<close>

record dof_helper =
  globalIndex :: nat
  patch :: nat
  localIndex :: nat

definition dof_less :: "dof_helper \<Rightarrow> dof_helper \<Rightarrow> bool" where
  "dof_less a b = (globalIndex a < globalIndex b)"

text \<open>The corners that are collected (lines 201 to 238), in the order they are pushed.\<close>

definition cornersOf :: "gsIetiMapper \<Rightarrow> nat \<Rightarrow> nat \<Rightarrow> dof_helper list" where
  "cornersOf st k it =
     (let dm = m_dofMapperGlobal st;
          idx = functionAtCorner (m_multiBasis st) k it;
          dh = \<lparr>globalIndex = index dm idx k, patch = k,
                localIndex = l_index (m_dofMapperLocal st ! k) idx\<rparr>
      in if is_free_index dm (globalIndex dh)
         then if m_status st AND 2 \<noteq> 0
              then map (\<lambda>pre. \<lparr>globalIndex = globalIndex dh, patch = fst pre,
                                localIndex = l_index (m_dofMapperLocal st ! fst pre) (snd pre)\<rparr>)
                     (preImage dm (globalIndex dh))
              else [dh]
         else [])"

definition collectCorners :: "gsIetiMapper \<Rightarrow> dof_helper list" where
  "collectCorners st =
     concat (map (\<lambda>k. concat (map (cornersOf st k) (boxCorners (mb_dim (m_multiBasis st)))))
               [0 ..< length (m_dofMapperLocal st)])"

definition push_constraint :: "nat \<Rightarrow> SparseVector \<Rightarrow> int \<Rightarrow> gsIetiMapper \<Rightarrow> gsIetiMapper" where
  "push_constraint k constr primalIndex st =
     st\<lparr>m_primalConstraints :=
          (m_primalConstraints st)[k := m_primalConstraints st ! k @ [constr]],
        m_primalDofIndices :=
          (m_primalDofIndices st)[k := m_primalDofIndices st ! k @ [primalIndex]]\<rparr>"

definition unitConstraint :: "gsIetiMapper \<Rightarrow> dof_helper \<Rightarrow> SparseVector" where
  "unitConstraint st c =
     sv_assign (localIndex c) 1 (sv_zero (l_freeSize (m_dofMapperLocal st ! patch c)))"

text \<open>The loop that creates the data (lines 244 to 262) on the sorted corners.\<close>

fun cornerLoop :: "dof_helper list \<Rightarrow> int \<Rightarrow> gsIetiMapper \<Rightarrow> gsIetiMapper" where
  "cornerLoop [] lastIndex st = st"
| "cornerLoop (c # cs) lastIndex st =
     (let fresh = (lastIndex \<noteq> int (globalIndex c));
          lastIndex' = (if fresh then int (globalIndex c) else lastIndex);
          st1 = (if fresh then st\<lparr>m_nPrimalDofs := m_nPrimalDofs st + 1\<rparr> else st);
          cornerIndex = int (m_nPrimalDofs st1) - 1
      in cornerLoop cs lastIndex'
           (push_constraint (patch c) (unitConstraint st1 c) cornerIndex st1))"

definition cornersAsPrimals ::
  "(dof_helper list \<Rightarrow> dof_helper list) \<Rightarrow> gsIetiMapper \<Rightarrow> error + gsIetiMapper" where
  "cornersAsPrimals srt st =
     (if m_status st AND 1 = 0 then Inl SequencingError
      else if \<not> m_status st AND 8 = 0 then Inl SequencingError
      else
        let st1 = st\<lparr>m_status := m_status st OR 8\<rparr>
        in Inr (cornerLoop (srt (collectCorners st1)) (- 1) st1))"

subsection \<open>interfaceAveragesAsPrimals\<close>

definition assembleAverage ::
  "gsMultiPatch \<Rightarrow> gsMultiBasis \<Rightarrow> localMapper \<Rightarrow> patchComponent \<Rightarrow> error + SparseVector" where
  "assembleAverage geo basis dm bc =
     (let indices = componentBasis_withIndices basis bc;
          moments = assembleMoments geo bc;
          sz = length moments
      in if \<not> sz = length indices then Inl InternalInvariantViolation
         else
           let (constraint, sum) =
                 fold (\<lambda>i (constraint, sum).
                    let idx = l_index dm (indices ! i)
                    in if l_is_free_index dm idx
                       then (sv_assign idx (moments ! i) constraint, sum + moments ! i)
                       else (constraint, sum))
                   [0 ..< sz] (sv_zero (l_freeSize dm), 0)
           in Inr (constraint\<lparr>sv_entries :=
                     map (\<lambda>e. (fst e, snd e / sum)) (sv_entries constraint)\<rparr>))"

record constr_helper =
  globalIndices :: "nat list"
  vector :: SparseVector
  cpatch :: nat

text \<open>The loop of \<^verbatim>\<open>operator<\<close> over two index lists of the same size.\<close>

fun first_difference :: "nat list \<Rightarrow> nat list \<Rightarrow> bool" where
  "first_difference (x # xs) (y # ys) = (if x \<noteq> y then x < y else first_difference xs ys)"
| "first_difference xs ys = False"

definition constr_less :: "constr_helper \<Rightarrow> constr_helper \<Rightarrow> bool" where
  "constr_less a b =
     (let sz = length (globalIndices a)
      in if sz \<noteq> length (globalIndices b) then sz < length (globalIndices b)
         else first_difference (globalIndices a) (globalIndices b))"

text \<open>The copies of a constraint on the artificial interfaces (lines 376 to 402).\<close>

definition artificialCopies :: "gsIetiMapper \<Rightarrow> constr_helper \<Rightarrow> constr_helper list" where
  "artificialCopies st constraint =
     concat (map (\<lambda>it.
        let ok = list_all (\<lambda>e. \<not> snd it ! fst e = 0) (sv_entries (vector constraint))
        in if ok
           then [\<lparr>globalIndices = globalIndices constraint,
                  vector = fold (\<lambda>e v. sv_assign
                                   (l_index (m_dofMapperLocal st ! fst it) (snd it ! fst e - 1))
                                   (snd e) v)
                             (sv_entries (vector constraint))
                             (sv_zero (l_freeSize (m_dofMapperLocal st ! fst it))),
                  cpatch = fst it\<rparr>]
           else [])
       (m_artificialDofInfo st ! cpatch constraint))"

text \<open>The constraints of one component (lines 353 to 407), in the order they are pushed.\<close>

fun componentConstraints ::
  "gsIetiMapper \<Rightarrow> gsMultiPatch \<Rightarrow> patchComponent list \<Rightarrow> error + constr_helper list" where
  "componentConstraints st geo [] = Inr []"
| "componentConstraints st geo (c # cs) =
     (let k = pc_patch c
      in case assembleAverage geo (m_multiBasis st) (m_dofMapperLocal st ! k) c of
           Inl e \<Rightarrow> Inl e
         | Inr v \<Rightarrow>
             let pushed =
               (if nonZeros v > 0
                then
                  let constraint =
                        \<lparr>globalIndices =
                           sort (map (\<lambda>e. index (m_dofMapperGlobal st)
                                            (l_inverse (m_dofMapperLocal st ! k) (fst e)) k)
                                   (sv_entries v)),
                         vector = v, cpatch = k\<rparr>
                  in (if m_status st AND 2 \<noteq> 0 then artificialCopies st constraint else [])
                     @ [constraint]
                else [])
             in case componentConstraints st geo cs of
                  Inl e \<Rightarrow> Inl e
                | Inr rest \<Rightarrow> Inr (pushed @ rest))"

text \<open>
  The loop that constructs the data (lines 413 to 435) on the sorted constraints:
  \<open>prev\<close> is \<^verbatim>\<open>constraints[i-1]\<close> when \<open>i > 0\<close>, \<open>whole\<close> is \<^verbatim>\<open>m_multiBasis->dim() == d\<close>.
\<close>

fun constraintLoop ::
  "bool \<Rightarrow> constr_helper option \<Rightarrow> constr_helper list \<Rightarrow> gsIetiMapper \<Rightarrow> gsIetiMapper" where
  "constraintLoop whole prev [] st = st"
| "constraintLoop whole prev (c # cs) st =
     (let first = (case prev of None \<Rightarrow> True | Some p \<Rightarrow> constr_less p c);
          kept = ((case cs of [] \<Rightarrow> False | c' # _ \<Rightarrow> \<not> constr_less c c') \<or> whole);
          ignore = (first \<and> \<not> kept);
          st1 = (if first \<and> kept then st\<lparr>m_nPrimalDofs := m_nPrimalDofs st + 1\<rparr> else st);
          st2 = (if \<not> ignore
                 then push_constraint (cpatch c) (vector c) (int (m_nPrimalDofs st1) - 1) st1
                 else st1)
      in constraintLoop whole (Some c) cs st2)"

text \<open>
  The loop over the components (lines 345 to 440). The program reads \<^verbatim>\<open>components[n][0]\<close>;
  a component without pieces, which a geometry does not have, is passed over here.
\<close>

fun componentsLoop ::
  "(constr_helper list \<Rightarrow> constr_helper list) \<Rightarrow> gsMultiPatch \<Rightarrow> int \<Rightarrow>
     patchComponent list list \<Rightarrow> gsIetiMapper \<Rightarrow> error + gsIetiMapper" where
  "componentsLoop srt geo d [] st = Inr st"
| "componentsLoop srt geo d (cmp # comps) st =
     (case cmp of
        [] \<Rightarrow> componentsLoop srt geo d comps st
      | c0 # _ \<Rightarrow>
          if int (pc_dim c0) = d
          then
            (case componentConstraints st geo cmp of
               Inl e \<Rightarrow> Inl e
             | Inr constraints \<Rightarrow>
                 componentsLoop srt geo d comps
                   (constraintLoop (int (mb_dim (m_multiBasis st)) = d) None
                      (srt constraints) st))
          else componentsLoop srt geo d comps st)"

definition interfaceAveragesAsPrimals ::
  "(constr_helper list \<Rightarrow> constr_helper list) \<Rightarrow> gsMultiPatch \<Rightarrow> int \<Rightarrow>
     gsIetiMapper \<Rightarrow> error + gsIetiMapper" where
  "interfaceAveragesAsPrimals srt geo d st =
     (if m_status st AND 1 = 0 then Inl SequencingError
      else if \<not> d > 0 then Inl ConfigurationError
      else if \<not> d \<le> int (mb_dim (m_multiBasis st)) then Inl ConfigurationError
      else if \<not> nPatches geo = nBases (m_multiBasis st) then Inl ConfigurationError
      else if \<not> parDim geo = mb_dim (m_multiBasis st) then Inl ConfigurationError
      else
        let flag = (push_bit (nat (3 + d)) 1 :: 32 word)
        in if \<not> m_status st AND flag = 0 then Inl SequencingError
           else componentsLoop srt geo d (allComponents geo)
                  (st\<lparr>m_status := m_status st OR flag\<rparr>))"

subsection \<open>customPrimalConstraints and skeletonDofs\<close>

definition customPrimalConstraints ::
  "(nat \<times> SparseVector) list \<Rightarrow> gsIetiMapper \<Rightarrow> error + gsIetiMapper" where
  "customPrimalConstraints data st =
     (if m_status st AND 1 = 0 then Inl SequencingError
      else
        let st1 = fold (\<lambda>entry s. push_constraint (fst entry) (snd entry)
                                    (int (m_nPrimalDofs s)) s) data st
        in Inr (st1\<lparr>m_nPrimalDofs := m_nPrimalDofs st1 + 1\<rparr>))"


subsection \<open>computeJumpMatrices\<close>

text \<open>
  The groups of coupled indices (lines 487 to 503): \<open>coupling ! c\<close> lists the occurrences
  (patch, local index) of the coupled dof \<open>c\<close>, in the order they are found.
\<close>

definition findCoupling :: "gsIetiMapper \<Rightarrow> (nat \<times> nat) list list" where
  "findCoupling st =
     (let dm = m_dofMapperGlobal st
      in fold (\<lambda>k coupling.
           fold (\<lambda>i coupling.
              let globalIndex = index dm i k
              in if is_coupled_index dm globalIndex
                 then
                   let coupledIndex = cindex dm i k;
                       localIndex = l_index (m_dofMapperLocal st ! k) i
                   in coupling[coupledIndex := coupling ! coupledIndex @ [(k, localIndex)]]
                 else coupling)
             [0 ..< patchSize dm k] coupling)
           [0 ..< numPatches dm] (replicate (coupledSize dm) []))"

text \<open>Erasing the data for corners (lines 506 to 522).\<close>

definition eraseCorners :: "gsIetiMapper \<Rightarrow> (nat \<times> nat) list list \<Rightarrow> (nat \<times> nat) list list" where
  "eraseCorners st coupling0 =
     (let dm = m_dofMapperGlobal st
      in fold (\<lambda>k coupling.
           fold (\<lambda>it coupling.
              let idx = functionAtCorner (m_multiBasis st) k it;
                  globalIndex = index dm idx k
              in if is_coupled_index dm globalIndex
                 then coupling[cindex dm idx k := []]
                 else coupling)
             (boxCorners (mb_dim (m_multiBasis st))) coupling)
           [0 ..< numPatches dm] coupling0)"

text \<open>The number of Lagrange multipliers (lines 525 to 535).\<close>

fun countLagrangeMult ::
  "bool \<Rightarrow> bool \<Rightarrow> (nat \<times> nat) list list \<Rightarrow> int \<Rightarrow> error + int" where
  "countLagrangeMult fullyRedundant excludeCorners [] numLagrangeMult = Inr numLagrangeMult"
| "countLagrangeMult fullyRedundant excludeCorners (g # gs) numLagrangeMult =
     (let n = int (length g)
      in if \<not> (n > 1 \<or> excludeCorners) then Inl InternalInvariantViolation
         else countLagrangeMult fullyRedundant excludeCorners gs
                (if fullyRedundant then numLagrangeMult + (n * (n - 1)) div 2
                 else numLagrangeMult + (n - 1)))"

text \<open>
  The pairs \<open>(j1, j2)\<close> that the two inner loops (lines 549 to 552) visit for a group of
  size \<open>n\<close>, in order.
\<close>

definition jumpPairs :: "bool \<Rightarrow> int \<Rightarrow> (nat \<times> nat) list" where
  "jumpPairs fullyRedundant n =
     (let maxIndex = (if fullyRedundant then n - 1 else 1)
      in concat (map (\<lambda>j1. map (\<lambda>j2. (j1, j2)) [j1 + 1 ..< nat n]) [0 ..< nat maxIndex]))"

text \<open>The body of the loops (lines 554 to 560).\<close>

definition addJump ::
  "(nat \<times> nat) list \<Rightarrow> nat \<times> nat \<Rightarrow> nat \<times> (nat \<times> nat \<times> real) list list \<Rightarrow>
     nat \<times> (nat \<times> nat \<times> real) list list" where
  "addJump g js acc =
     (let multiplier = fst acc; se = snd acc;
          patch1 = fst (g ! fst js); localIndex1 = snd (g ! fst js);
          patch2 = fst (g ! snd js); localIndex2 = snd (g ! snd js);
          se1 = se[patch1 := se ! patch1 @ [(multiplier, localIndex1, 1)]];
          se2 = se1[patch2 := se1 ! patch2 @ [(multiplier, localIndex2, - 1)]]
      in (multiplier + 1, se2))"

definition jumpEntries ::
  "bool \<Rightarrow> (nat \<times> nat) list list \<Rightarrow> nat \<Rightarrow> nat \<times> (nat \<times> nat \<times> real) list list" where
  "jumpEntries fullyRedundant coupling nP =
     fold (\<lambda>g acc. fold (addJump g) (jumpPairs fullyRedundant (int (length g))) acc)
       coupling (0, replicate nP [])"

definition computeJumpMatrices :: "bool \<Rightarrow> bool \<Rightarrow> gsIetiMapper \<Rightarrow> error + gsIetiMapper" where
  "computeJumpMatrices fullyRedundant excludeCorners st =
     (if m_status st AND 1 = 0 then Inl SequencingError
      else if \<not> m_status st AND 4 = 0 then Inl SequencingError
      else
        let st1 = st\<lparr>m_status := m_status st OR 4\<rparr>;
            nP = numPatches (m_dofMapperGlobal st1);
            coupling0 = findCoupling st1;
            coupling = (if excludeCorners then eraseCorners st1 coupling0 else coupling0)
        in case countLagrangeMult fullyRedundant excludeCorners coupling 0 of
             Inl e \<Rightarrow> Inl e
           | Inr numLagrangeMult \<Rightarrow>
               let (multiplier, se) = jumpEntries fullyRedundant coupling nP
               in if \<not> int multiplier = numLagrangeMult then Inl InternalInvariantViolation
                  else Inr (st1\<lparr>m_jumpMatrices :=
                              map (\<lambda>i. \<lparr>jm_rows = numLagrangeMult,
                                         jm_cols = l_freeSize (m_dofMapperLocal st1 ! i),
                                         jm_entries = se ! i\<rparr>)
                                [0 ..< nP]\<rparr>))"

subsection \<open>Quantities that the properties speak about\<close>

text \<open>The number of rows that the loops emit for one group of occurrences.\<close>

definition rowsOfGroup :: "bool \<Rightarrow> (nat \<times> nat) list \<Rightarrow> nat" where
  "rowsOfGroup fullyRedundant g = length (jumpPairs fullyRedundant (int (length g)))"

text \<open>
  The theoretical number of multipliers of one group of size \<open>n\<close>: \<open>n - 1\<close>, or
  \<open>n (n - 1) / 2\<close> when fully redundant, as an integer.
\<close>

definition theoreticalCount :: "bool \<Rightarrow> (nat \<times> nat) list \<Rightarrow> int" where
  "theoreticalCount fullyRedundant g =
     (let n = int (length g) in if fullyRedundant then (n * (n - 1)) div 2 else n - 1)"

subsection \<open>A concrete decomposition\<close>

text \<open>
  A dof mapper given by its table of global indices, one row per patch, with the free
  dofs numbered first, the coupled ones last among them, and the eliminated ones after.
\<close>

definition tableMapper :: "nat list list \<Rightarrow> nat \<Rightarrow> nat \<Rightarrow> gsDofMapper" where
  "tableMapper tbl nFree nCpl =
     \<lparr>componentsSize = 1, numPatches = length tbl,
      patchSize = (\<lambda>k. length (tbl ! k)),
      freeSize = nFree, coupledSize = nCpl,
      index = (\<lambda>i k. tbl ! k ! i),
      bindex = (\<lambda>i k. tbl ! k ! i - nFree),
      cindex = (\<lambda>i k. tbl ! k ! i + nCpl - nFree),
      is_free_index = (\<lambda>g. g < nFree),
      is_boundary_index = (\<lambda>g. nFree \<le> g),
      is_coupled_index = (\<lambda>g. g < nFree \<and> nFree \<le> g + nCpl),
      preImage = (\<lambda>g. concat (map (\<lambda>k. map (\<lambda>i. (k, i))
                     (filter (\<lambda>i. tbl ! k ! i = g) [0 ..< length (tbl ! k)]))
                   [0 ..< length tbl]))\<rparr>"

text \<open>
  Two unit squares side by side with bilinear bases: patch 0 has its left edge on the
  Dirichlet boundary, and its right edge is the left edge of patch 1. The dofs of a
  patch are its corners.
\<close>

definition ex_dm :: gsDofMapper where
  "ex_dm = tableMapper [[4, 2, 5, 3], [2, 0, 3, 1]] 4 2"

definition ex_mb :: gsMultiBasis where
  "ex_mb = \<lparr>mb_dim = 2, mb_size = [4, 4], functionAtCorner = (\<lambda>k it. it - 1),
            componentBasis_withIndices =
              (\<lambda>c. if pc_dim c = 2 then [0, 1, 2, 3]
                    else if pc_index c = 2 then [1, 3] else [0, 2])\<rparr>"

definition ex_blank :: gsIetiMapper where
  "ex_blank = \<lparr>m_multiBasis = ex_mb, m_dofMapperGlobal = ex_dm, m_dofMapperLocal = [],
     m_fixedPart = [], m_jumpMatrices = [], m_nPrimalDofs = 0, m_primalConstraints = [],
     m_primalDofIndices = [], m_status = 0, m_artificialDofInfo = []\<rparr>"

text \<open>The error of a result, if it is one.\<close>

definition errorOf :: "error + 'a \<Rightarrow> error option" where
  "errorOf r = (case r of Inl e \<Rightarrow> Some e | Inr _ \<Rightarrow> None)"

text \<open>The mapper after \<^verbatim>\<open>init\<close> on the two squares.\<close>

definition ex_state :: gsIetiMapper where
  "ex_state = projr (init ex_mb ex_dm [7, 9] ex_blank)"

text \<open>
  The geometry of the two squares: the edge they share (the east edge of patch 0, the
  west edge of patch 1), the east edge of patch 1, and the two interiors.
\<close>

definition ex_geo :: gsMultiPatch where
  "ex_geo = \<lparr>nPatches = 2, parDim = 2,
     allComponents =
       [[\<lparr>pc_patch = 0, pc_dim = 1, pc_index = 2\<rparr>, \<lparr>pc_patch = 1, pc_dim = 1, pc_index = 1\<rparr>],
        [\<lparr>pc_patch = 1, pc_dim = 1, pc_index = 2\<rparr>],
        [\<lparr>pc_patch = 0, pc_dim = 2, pc_index = 0\<rparr>],
        [\<lparr>pc_patch = 1, pc_dim = 2, pc_index = 0\<rparr>]],
     assembleMoments = (\<lambda>c. if pc_dim c = 2 then [1/4, 1/4, 1/4, 1/4] else [1/2, 1/2])\<rparr>"

subsection \<open>Sequences of builder calls\<close>

text \<open>A call of one of the builders of primal constraints, with its arguments.\<close>

datatype builderCall =
  CornersAsPrimals "dof_helper list \<Rightarrow> dof_helper list"
| InterfaceAveragesAsPrimals "constr_helper list \<Rightarrow> constr_helper list" gsMultiPatch int
| CustomPrimalConstraints "(nat \<times> SparseVector) list"

fun runBuilder :: "builderCall \<Rightarrow> gsIetiMapper \<Rightarrow> error + gsIetiMapper" where
  "runBuilder (CornersAsPrimals srt) st = cornersAsPrimals srt st"
| "runBuilder (InterfaceAveragesAsPrimals srt geo d) st = interfaceAveragesAsPrimals srt geo d st"
| "runBuilder (CustomPrimalConstraints data) st = customPrimalConstraints data st"

text \<open>The calls one after the other; the first failure ends the sequence.\<close>

fun runBuilders :: "builderCall list \<Rightarrow> gsIetiMapper \<Rightarrow> error + gsIetiMapper" where
  "runBuilders [] st = Inr st"
| "runBuilders (c # cs) st =
     (case runBuilder c st of Inl e \<Rightarrow> Inl e | Inr st' \<Rightarrow> runBuilders cs st')"

definition ex_calls :: "builderCall list" where
  "ex_calls =
     [CornersAsPrimals (sort_by dof_less),
      InterfaceAveragesAsPrimals (sort_by constr_less) ex_geo 1,
      CustomPrimalConstraints [(0, \<lparr>sv_size = 2, sv_entries = [(0, 1)]\<rparr>)],
      InterfaceAveragesAsPrimals (sort_by constr_less) ex_geo 2]"

subsection \<open>Runs of a sorted list\<close>

text \<open>
  The maximal runs of neighbours with the same key, in order: the first element and the
  elements after it that share its key, then the runs of what is left.
\<close>

function runs :: "('a \<Rightarrow> 'k) \<Rightarrow> 'a list \<Rightarrow> 'a list list" where
  "runs key [] = []"
| "runs key (x # xs) =
     (x # takeWhile (\<lambda>y. key y = key x) xs) # runs key (dropWhile (\<lambda>y. key y = key x) xs)"
  by pat_completeness auto
termination
  by (relation "measure (\<lambda>p. length (snd p))") (auto simp: less_Suc_eq_le length_dropWhile_le)

text \<open>
  The corner constraints as the specification words them: each run of corners with one
  global index becomes one new primal dof, and every corner of the run contributes a
  unit row (a single 1 at its local index) against its patch, tagged with that dof.
\<close>

fun cornerRuns :: "dof_helper list list \<Rightarrow> gsIetiMapper \<Rightarrow> gsIetiMapper" where
  "cornerRuns [] st = st"
| "cornerRuns (r # rs) st =
     (let st1 = st\<lparr>m_nPrimalDofs := m_nPrimalDofs st + 1\<rparr>;
          primalId = int (m_nPrimalDofs st)
      in cornerRuns rs
           (fold (\<lambda>c s. push_constraint (patch c)
                          \<lparr>sv_size = l_freeSize (m_dofMapperLocal s ! patch c),
                           sv_entries = [(localIndex c, 1)]\<rparr> primalId s) r st1))"

text \<open>
  The interface constraints as the specification words them: a run of constraints with
  one signature becomes one new primal dof shared by the run if it has at least two
  members or the component is the whole domain; any other run is discarded.
\<close>

fun constraintRuns :: "bool \<Rightarrow> constr_helper list list \<Rightarrow> gsIetiMapper \<Rightarrow> gsIetiMapper" where
  "constraintRuns whole [] st = st"
| "constraintRuns whole (r # rs) st =
     (if 2 \<le> length r \<or> whole
      then
        let st1 = st\<lparr>m_nPrimalDofs := m_nPrimalDofs st + 1\<rparr>;
            primalId = int (m_nPrimalDofs st)
        in constraintRuns whole rs
             (fold (\<lambda>c s. push_constraint (cpatch c) (vector c) primalId s) r st1)
      else constraintRuns whole rs st)"

text \<open>An order that \<^verbatim>\<open>std::sort\<close> accepts: a strict weak order.\<close>

definition strict_weak :: "('a \<Rightarrow> 'a \<Rightarrow> bool) \<Rightarrow> bool" where
  "strict_weak lt \<longleftrightarrow>
     (\<forall>a b. lt a b \<longrightarrow> \<not> lt b a) \<and> (\<forall>a b c. \<not> lt b a \<longrightarrow> \<not> lt c b \<longrightarrow> \<not> lt c a)"

text \<open>
  The loop over the components with the constraints of each component treated run by
  run, as the specification words it.
\<close>

fun componentsRuns ::
  "(constr_helper list \<Rightarrow> constr_helper list) \<Rightarrow> gsMultiPatch \<Rightarrow> int \<Rightarrow>
     patchComponent list list \<Rightarrow> gsIetiMapper \<Rightarrow> error + gsIetiMapper" where
  "componentsRuns srt geo d [] st = Inr st"
| "componentsRuns srt geo d (cmp # comps) st =
     (case cmp of
        [] \<Rightarrow> componentsRuns srt geo d comps st
      | c0 # _ \<Rightarrow>
          if int (pc_dim c0) = d
          then
            (case componentConstraints st geo cmp of
               Inl e \<Rightarrow> Inl e
             | Inr constraints \<Rightarrow>
                 componentsRuns srt geo d comps
                   (constraintRuns (int (mb_dim (m_multiBasis st)) = d)
                      (runs globalIndices (srt constraints)) st))
          else componentsRuns srt geo d comps st)"

text \<open>The tuple of a corner, the signature and patch of a constraint, for display.\<close>

definition cornerTuple :: "dof_helper \<Rightarrow> nat \<times> nat \<times> nat" where
  "cornerTuple c = (globalIndex c, patch c, localIndex c)"

definition constraintTuple :: "constr_helper \<Rightarrow> nat list \<times> nat" where
  "constraintTuple c = (globalIndices c, cpatch c)"

subsection \<open>The state after initialization and the contract of the global mapper\<close>

text \<open>
  What \<^verbatim>\<open>init\<close> establishes and the builders keep: the initialized flag, and one local
  mapper per patch, built from the global mapper.
\<close>

definition initialized :: "gsIetiMapper \<Rightarrow> bool" where
  "initialized st \<longleftrightarrow>
     m_status st AND 1 \<noteq> 0
     \<and> m_dofMapperLocal st =
         map (localMapperOf (m_dofMapperGlobal st)) [0 ..< numPatches (m_dofMapperGlobal st)]
     \<and> nBases (m_multiBasis st) = numPatches (m_dofMapperGlobal st)
     \<and> list_all (\<lambda>k. mb_size (m_multiBasis st) ! k \<le> patchSize (m_dofMapperGlobal st) k)
          [0 ..< numPatches (m_dofMapperGlobal st)]"

text \<open>All dofs (patch, index) of the global mapper, in the order of the loops.\<close>

definition allDofs :: "gsDofMapper \<Rightarrow> (nat \<times> nat) list" where
  "allDofs dm = concat (map (\<lambda>k. map (Pair k) [0 ..< patchSize dm k]) [0 ..< numPatches dm])"

text \<open>
  Modelled from the spec: the contract of \<^verbatim>\<open>gsDofMapper\<close> (not among the sources) that the
  data model of the specification states. Every dof is classified as eliminated or
  free; the free global indices are \<open>0, \<dots>, freeSize - 1\<close> and each of them is the image of
  some dof; a coupled index is free, its coupled enumeration index is below
  \<open>coupledSize\<close>, and two coupled dofs have the same enumeration index exactly when they
  have the same global index.
\<close>

definition dofMapper_ok :: "gsDofMapper \<Rightarrow> bool" where
  "dofMapper_ok dm \<longleftrightarrow>
     list_all (\<lambda>(k, i).
         (is_boundary_index dm (index dm i k) \<longleftrightarrow> \<not> is_free_index dm (index dm i k))
         \<and> (is_free_index dm (index dm i k) \<longleftrightarrow> index dm i k < freeSize dm)
         \<and> (is_coupled_index dm (index dm i k) \<longrightarrow>
              is_free_index dm (index dm i k) \<and> cindex dm i k < coupledSize dm))
       (allDofs dm)
     \<and> list_all (\<lambda>g. list_ex (\<lambda>(k, i). index dm i k = g) (allDofs dm)) [0 ..< freeSize dm]
     \<and> list_all (\<lambda>(k, i). list_all (\<lambda>(k', i').
           is_coupled_index dm (index dm i k) \<and> is_coupled_index dm (index dm i' k') \<longrightarrow>
           (cindex dm i k = cindex dm i' k' \<longleftrightarrow> index dm i k = index dm i' k'))
         (allDofs dm)) (allDofs dm)"

subsection \<open>Coupling groups and rows, as the properties speak of them\<close>

text \<open>The occurrences (patch, local index) of the coupled dof \<open>c\<close>.\<close>

definition occurrences :: "gsIetiMapper \<Rightarrow> nat \<Rightarrow> (nat \<times> nat) list" where
  "occurrences st c =
     map (\<lambda>(k, i). (k, l_index (m_dofMapperLocal st ! k) i))
       (filter (\<lambda>(k, i). is_coupled_index (m_dofMapperGlobal st) (index (m_dofMapperGlobal st) i k)
                          \<and> cindex (m_dofMapperGlobal st) i k = c)
          (allDofs (m_dofMapperGlobal st)))"

text \<open>The coupled dof \<open>c\<close> belongs to the basis function at a corner of some patch.\<close>

definition cornerCoupled :: "gsIetiMapper \<Rightarrow> nat \<Rightarrow> bool" where
  "cornerCoupled st c \<longleftrightarrow>
     list_ex (\<lambda>k. list_ex (\<lambda>it.
         is_coupled_index (m_dofMapperGlobal st)
           (index (m_dofMapperGlobal st) (functionAtCorner (m_multiBasis st) k it) k)
         \<and> cindex (m_dofMapperGlobal st) (functionAtCorner (m_multiBasis st) k it) k = c)
        (boxCorners (mb_dim (m_multiBasis st))))
       [0 ..< numPatches (m_dofMapperGlobal st)]"

text \<open>The groups that the loops work on.\<close>

definition couplingGroups :: "bool \<Rightarrow> gsIetiMapper \<Rightarrow> (nat \<times> nat) list list" where
  "couplingGroups excludeCorners st =
     map (\<lambda>c. if excludeCorners \<and> cornerCoupled st c then [] else occurrences st c)
       [0 ..< coupledSize (m_dofMapperGlobal st)]"

text \<open>
  The rows in the order of their multipliers: the pair of occurrences of each visit of
  the loop body, the first with \<open>+1\<close> and the second with \<open>-1\<close>.
\<close>

definition jumpRows :: "bool \<Rightarrow> (nat \<times> nat) list list \<Rightarrow> ((nat \<times> nat) \<times> (nat \<times> nat)) list" where
  "jumpRows fullyRedundant coupling =
     concat (map (\<lambda>g. map (\<lambda>js. (g ! fst js, g ! snd js))
                        (jumpPairs fullyRedundant (int (length g)))) coupling)"

text \<open>The entries of row \<open>r\<close> in all the matrices: (patch, column, value).\<close>

definition rowEntries :: "JumpMatrix list \<Rightarrow> nat \<Rightarrow> (nat \<times> nat \<times> real) list" where
  "rowEntries ms r =
     concat (map (\<lambda>k. map (\<lambda>e. (k, fst (snd e), snd (snd e)))
                        (filter (\<lambda>e. fst e = r) (jm_entries (ms ! k))))
               [0 ..< length ms])"

definition numLagrangeMult :: "gsIetiMapper \<Rightarrow> int" where
  "numLagrangeMult st = (case m_jumpMatrices st of [] \<Rightarrow> 0 | M # _ \<Rightarrow> jm_rows M)"

text \<open>The body of the loops on a row given by its two occurrences.\<close>

definition addRow ::
  "(nat \<times> nat) \<times> (nat \<times> nat) \<Rightarrow> nat \<times> (nat \<times> nat \<times> real) list list \<Rightarrow>
     nat \<times> (nat \<times> nat \<times> real) list list" where
  "addRow row acc =
     (let multiplier = fst acc; se = snd acc;
          se1 = se[fst (fst row) := se ! fst (fst row) @ [(multiplier, snd (fst row), 1)]];
          se2 = se1[fst (snd row) := se1 ! fst (snd row) @ [(multiplier, snd (snd row), - 1)]]
      in (multiplier + 1, se2))"

text \<open>What a row contributes to the entries of the matrix of patch \<open>k\<close>.\<close>

definition rowContribution ::
  "(nat \<times> nat) \<times> (nat \<times> nat) \<Rightarrow> nat \<Rightarrow> nat \<Rightarrow> (nat \<times> nat \<times> real) list" where
  "rowContribution row k r =
     (if fst (fst row) = k then [(r, snd (fst row), 1)] else [])
     @ (if fst (snd row) = k then [(r, snd (snd row), - 1)] else [])"

subsection \<open>Reconstruction, as the properties speak of it\<close>

text \<open>
  The real dofs whose local value is assigned to row \<open>g\<close> of the result, in the order
  of the loops.
\<close>

definition writers :: "gsIetiMapper \<Rightarrow> nat \<Rightarrow> (nat \<times> nat) list" where
  "writers st g =
     filter (\<lambda>(k, i). l_is_free (m_dofMapperLocal st ! k) i \<and> is_free (m_dofMapperGlobal st) i k
                        \<and> index (m_dofMapperGlobal st) i k = g)
       (realDofs st)"

text \<open>
  The local vectors \<open>localContribs\<close> are a splitting of the global vector \<open>u\<close>: there is
  a patch, there is one vector per patch, with the columns of \<open>u\<close> and as many rows as
  the patch has free local dofs, and the row of every free real dof is the row of \<open>u\<close> at
  its global index (so a coupled dof has the same value on all its patches).
\<close>

definition splitting :: "gsIetiMapper \<Rightarrow> Matrix \<Rightarrow> Matrix list \<Rightarrow> bool" where
  "splitting st u localContribs \<longleftrightarrow>
     0 < numPatches (m_dofMapperGlobal st)
     \<and> length localContribs = numPatches (m_dofMapperGlobal st)
     \<and> length (mx_row u) = freeSize (m_dofMapperGlobal st)
     \<and> list_all (\<lambda>k. mx_cols (localContribs ! k) = mx_cols u
            \<and> length (mx_row (localContribs ! k)) = l_freeSize (m_dofMapperLocal st ! k))
         [0 ..< numPatches (m_dofMapperGlobal st)]
     \<and> list_all (\<lambda>(k, i).
           l_is_free (m_dofMapperLocal st ! k) i \<and> is_free (m_dofMapperGlobal st) i k \<longrightarrow>
           mx_row (localContribs ! k) ! l_index (m_dofMapperLocal st ! k) i =
             mx_row u ! index (m_dofMapperGlobal st) i k)
         (realDofs st)"

text \<open>Every free global dof is the image of a real dof of some patch.\<close>

definition realDofs_cover :: "gsIetiMapper \<Rightarrow> bool" where
  "realDofs_cover st \<longleftrightarrow>
     list_all (\<lambda>g. list_ex (\<lambda>(k, i). index (m_dofMapperGlobal st) i k = g) (realDofs st))
       [0 ..< freeSize (m_dofMapperGlobal st)]"

text \<open>Two lists of local vectors agree on the rows of the free real dofs.\<close>

definition agree_on_real :: "gsIetiMapper \<Rightarrow> Matrix list \<Rightarrow> Matrix list \<Rightarrow> bool" where
  "agree_on_real st A B \<longleftrightarrow>
     length A = length B \<and> mx_cols (A ! 0) = mx_cols (B ! 0)
     \<and> list_all (\<lambda>(k, i).
           l_is_free (m_dofMapperLocal st ! k) i \<and> is_free (m_dofMapperGlobal st) i k \<longrightarrow>
           mx_row (A ! k) ! l_index (m_dofMapperLocal st ! k) i =
             mx_row (B ! k) ! l_index (m_dofMapperLocal st ! k) i)
         (realDofs st)"

subsection \<open>A decomposition with artificial dofs\<close>

text \<open>
  Two patches with two real dofs each; each patch also declares one artificial dof that
  mirrors the interface dof of the other patch. Nothing is eliminated.
\<close>

definition art_dm :: gsDofMapper where
  "art_dm = tableMapper [[0, 2, 3], [3, 1, 2]] 4 2"

definition art_mb :: gsMultiBasis where
  "art_mb = \<lparr>mb_dim = 1, mb_size = [2, 2], functionAtCorner = (\<lambda>k it. it - 1),
             componentBasis_withIndices = (\<lambda>c. [0, 1])\<rparr>"

definition art_state :: gsIetiMapper where
  "art_state = projr (init art_mb art_dm [] ex_blank)"

definition matrixOf :: "real list \<Rightarrow> Matrix" where
  "matrixOf xs = \<lparr>mx_cols = 1, mx_row = map (\<lambda>x. [x]) xs\<rparr>"

subsection \<open>Two biquadratic squares\<close>

text \<open>
  Two unit squares side by side with biquadratic bases (9 dofs each, numbered row by
  row), nothing eliminated. The east edge of patch 0 (dofs 2, 5, 8) is the west edge of
  patch 1 (dofs 0, 3, 6); the corners of a patch are its dofs 0, 2, 6 and 8.
\<close>

definition quad_dm :: gsDofMapper where
  "quad_dm = tableMapper [[0, 1, 12, 2, 3, 13, 4, 5, 14], [12, 6, 7, 13, 8, 9, 14, 10, 11]] 15 3"

definition quad_mb :: gsMultiBasis where
  "quad_mb = \<lparr>mb_dim = 2, mb_size = [9, 9],
              functionAtCorner = (\<lambda>k it. [0, 2, 6, 8] ! (it - 1)),
              componentBasis_withIndices = (\<lambda>c. [])\<rparr>"

definition quad_state :: gsIetiMapper where
  "quad_state = projr (init quad_mb quad_dm [] ex_blank)"

subsection \<open>Sequences of phases\<close>





subsection \<open>Counting the free dofs\<close>

text \<open>The number of dofs (patch, index) of the global mapper with the global index \<open>g\<close>.\<close>

definition multiplicity :: "gsDofMapper \<Rightarrow> nat \<Rightarrow> nat" where
  "multiplicity dm g = length (filter (\<lambda>(k, i). index dm i k = g) (allDofs dm))"

section \<open>Properties\<close>

subsection \<open>Rows of the jump matrices\<close>


lemma jumpPairs_minimal: "1 \<le> n \<Longrightarrow> jumpPairs False n = map (Pair 0) [1 ..< nat n]"
  by (simp add: jumpPairs_def)

lemma jumpPairs_empty: "n \<le> 0 \<Longrightarrow> jumpPairs fr n = []"
  by (simp add: jumpPairs_def)

lemma length_jumpPairs_minimal: "int (length (jumpPairs False n)) = (if n \<le> 0 then 0 else n - 1)"
  by (simp add: jumpPairs_def)

lemma set_jumpPairs_redundant:
  "set (jumpPairs True n) = {(j1, j2). j1 < j2 \<and> int j2 < n}"
proof -
  have "\<And>a b. a < b \<Longrightarrow> int b < n \<Longrightarrow> \<exists>x\<in>{0..<nat (n - 1)}. (a, b) \<in> Pair x ` {Suc x..<nat n}"
  proof -
    fix a b :: nat assume "a < b" "int b < n"
    then have "a \<in> {0..<nat (n - 1)}" "(a, b) \<in> Pair a ` {Suc a..<nat n}" by auto
    then show "\<exists>x\<in>{0..<nat (n - 1)}. (a, b) \<in> Pair x ` {Suc x..<nat n}" by blast
  qed
  then show ?thesis by (auto simp: jumpPairs_def)
qed

lemma distinct_jumpPairs: "distinct (jumpPairs fr n)"
proof -
  have inj: "x = y" if "Suc x < m" "map (Pair x) [Suc x..<m] = map (Pair y) [Suc y..<m]" for x y m :: nat
  proof -
    have "(x, Suc x) \<in> set (map (Pair x) [Suc x..<m])" using that(1) by simp
    then have "(x, Suc x) \<in> set (map (Pair y) [Suc y..<m])" using that(2) by simp
    then show ?thesis by auto
  qed
  have "distinct (concat (map (\<lambda>j1. map (Pair j1) [j1 + 1 ..< m]) [0 ..< k]))" if "k \<le> m - 1" for k m :: nat
  proof (rule distinct_concat)
    have "inj_on (\<lambda>j1. map (Pair j1) [j1 + 1..<m]) (set [0..<k])"
    proof (rule inj_onI)
      fix x y assume "x \<in> set [0..<k]" "map (Pair x) [x + 1..<m] = map (Pair y) [y + 1..<m]"
      then show "x = y" using that inj[of x m y] by auto
    qed
    then show "distinct (map (\<lambda>j1. map (Pair j1) [j1 + 1..<m]) [0..<k])"
      by (simp add: distinct_map)
  qed (auto simp: distinct_map inj_on_def)
  then show ?thesis
    unfolding jumpPairs_def Let_def
    by (cases fr) (auto simp: nat_diff_distrib' distinct_map inj_on_def)
qed

lemma triangle_sum: "(\<Sum>j<k. k - j) = k * (k + 1) div (2::nat)"
proof -
  have "(\<Sum>j<k. k - j) = (\<Sum>j<k. Suc (k - Suc j))"
    by (rule sum.cong) auto
  also have "\<dots> = (\<Sum>j<k. Suc j)"
    by (rule sum.nat_diff_reindex)
  also have "\<dots> = k * (k + 1) div 2"
    by (induction k) auto
  finally show ?thesis .
qed

lemma length_jumpPairs_redundant_nat:
  "length (jumpPairs True (int m)) = m * (m - 1) div 2"
proof -
  have "length (jumpPairs True (int m)) = sum_list (map (\<lambda>j1. m - (j1 + 1)) [0 ..< m - 1])"
    by (simp add: jumpPairs_def length_concat comp_def nat_diff_distrib')
  also have "\<dots> = (\<Sum>j<m - 1. (m - 1) - j)"
    by (simp add: interv_sum_list_conv_sum_set_nat atLeast0LessThan)
  also have "\<dots> = (m - 1) * (m - 1 + 1) div 2"
    by (rule triangle_sum)
  also have "\<dots> = m * (m - 1) div 2"
    by (cases m) (simp_all add: mult.commute)
  finally show ?thesis .
qed

lemma length_jumpPairs_redundant:
  "0 \<le> n \<Longrightarrow> int (length (jumpPairs True n)) = (n * (n - 1)) div 2"
proof -
  assume "0 \<le> n"
  then obtain m where n: "n = int m" using nonneg_int_cases by blast
  have "int (m * (m - 1) div 2) = (int m * (int m - 1)) div 2"
    by (cases m) (simp_all add: zdiv_int algebra_simps)
  then show ?thesis by (simp add: n length_jumpPairs_redundant_nat)
qed


lemma fst_fold_addJump: "fst (fold (addJump g) ps acc) = fst acc + length ps"
  by (induction ps arbitrary: acc) (simp_all add: addJump_def Let_def)

lemma fst_fold_groups:
  "fst (fold (\<lambda>g acc. fold (addJump g) (jumpPairs fr (int (length g))) acc) coupling acc) =
     fst acc + sum_list (map (rowsOfGroup fr) coupling)"
  by (induction coupling arbitrary: acc) (simp_all add: fst_fold_addJump rowsOfGroup_def)

lemma fst_jumpEntries:
  "fst (jumpEntries fr coupling nP) = sum_list (map (rowsOfGroup fr) coupling)"
  by (simp add: jumpEntries_def fst_fold_groups)

lemma countLagrangeMult_eq:
  "countLagrangeMult fr ec coupling acc =
     (if \<forall>g\<in>set coupling. 1 < length g \<or> ec
      then Inr (acc + sum_list (map (theoreticalCount fr) coupling))
      else Inl InternalInvariantViolation)"
  by (induction coupling arbitrary: acc) (auto simp: theoreticalCount_def Let_def)

lemma rowsOfGroup_theoretical:
  "g \<noteq> [] \<or> fr \<Longrightarrow> int (rowsOfGroup fr g) = theoreticalCount fr g"
  by (cases fr) (auto simp: rowsOfGroup_def theoreticalCount_def Let_def
      length_jumpPairs_redundant length_jumpPairs_minimal)

lemma realized_eq_theoretical:
  "\<forall>g\<in>set coupling. g \<noteq> [] \<or> fr \<Longrightarrow>
     int (sum_list (map (rowsOfGroup fr) coupling)) = sum_list (map (theoreticalCount fr) coupling)"
  by (induction coupling) (simp_all add: rowsOfGroup_theoretical)

text \<open>
  The rows of one group \<open>g\<close> of size \<open>n\<close>, and the total. Without full redundancy and
  with \<open>n \<ge> 1\<close> the loops visit exactly \<open>n - 1\<close> pairs, occurrence 0 with every other
  occurrence in turn; with full redundancy they visit exactly the \<open>n (n - 1) / 2\<close> pairs
  \<open>j1 < j2 < n\<close>, none twice. The multiplier counter after the loops is the sum of the
  rows of the groups. The count made beforehand fails when a group has fewer than two
  occurrences and \<^verbatim>\<open>excludeCorners\<close> is off; otherwise it returns a number, which is the
  counter after the loops whenever no group is empty or the build is fully redundant.
\<close>

lemma group_rows:
  "(1 \<le> length g \<longrightarrow>
      map (\<lambda>js. (g ! fst js, g ! snd js)) (jumpPairs False (int (length g))) =
        map (\<lambda>j2. (g ! 0, g ! j2)) [1 ..< length g]
      \<and> int (rowsOfGroup False g) = int (length g) - 1)
   \<and> distinct (jumpPairs True (int (length g)))
   \<and> set (jumpPairs True (int (length g))) = {(j1, j2). j1 < j2 \<and> j2 < length g}
   \<and> int (rowsOfGroup True g) = (int (length g) * (int (length g) - 1)) div 2
   \<and> (length g = 0 \<longrightarrow> rowsOfGroup fullyRedundant g = 0)
   \<and> (length g = 2 \<longrightarrow> rowsOfGroup fullyRedundant g = 1)
   \<and> (length g = 3 \<longrightarrow> rowsOfGroup False g = 2 \<and> rowsOfGroup True g = 3)
   \<and> fst (jumpEntries fullyRedundant coupling nP) =
       sum_list (map (rowsOfGroup fullyRedundant) coupling)
   \<and> ((\<exists>g\<in>set coupling. \<not> (1 < length g \<or> excludeCorners)) \<longrightarrow>
        countLagrangeMult fullyRedundant excludeCorners coupling 0 = Inl InternalInvariantViolation)
   \<and> ((\<forall>g\<in>set coupling. g \<noteq> [] \<or> fullyRedundant)
        \<and> (\<forall>g\<in>set coupling. 1 < length g \<or> excludeCorners)
        \<longrightarrow> countLagrangeMult fullyRedundant excludeCorners coupling 0 =
              Inr (int (fst (jumpEntries fullyRedundant coupling nP))))"
proof -
  have minimal: "1 \<le> length g \<longrightarrow>
      map (\<lambda>js. (g ! fst js, g ! snd js)) (jumpPairs False (int (length g))) =
        map (\<lambda>j2. (g ! 0, g ! j2)) [1 ..< length g]
      \<and> int (rowsOfGroup False g) = int (length g) - 1"
    by (simp add: jumpPairs_minimal rowsOfGroup_def comp_def)
  have redundant: "int (rowsOfGroup True g) = (int (length g) * (int (length g) - 1)) div 2"
    by (simp add: rowsOfGroup_def length_jumpPairs_redundant)
  have pairs: "set (jumpPairs True (int (length g))) = {(j1, j2). j1 < j2 \<and> j2 < length g}"
    by (simp add: set_jumpPairs_redundant)
  have empty: "length g = 0 \<longrightarrow> rowsOfGroup fullyRedundant g = 0"
    by (simp add: rowsOfGroup_def jumpPairs_empty)
  have two: "length g = 2 \<longrightarrow> rowsOfGroup fullyRedundant g = 1"
    by (simp add: rowsOfGroup_def jumpPairs_def)
  have three: "length g = 3 \<longrightarrow> rowsOfGroup False g = 2 \<and> rowsOfGroup True g = 3"
    by (simp add: rowsOfGroup_def jumpPairs_def upt_rec)
  have refused: "(\<exists>g\<in>set coupling. \<not> (1 < length g \<or> excludeCorners)) \<longrightarrow>
        countLagrangeMult fullyRedundant excludeCorners coupling 0 = Inl InternalInvariantViolation"
    by (auto simp: countLagrangeMult_eq)
  have total: "(\<forall>g\<in>set coupling. g \<noteq> [] \<or> fullyRedundant)
        \<and> (\<forall>g\<in>set coupling. 1 < length g \<or> excludeCorners)
        \<longrightarrow> countLagrangeMult fullyRedundant excludeCorners coupling 0 =
              Inr (int (fst (jumpEntries fullyRedundant coupling nP)))"
  proof
    assume h: "(\<forall>g\<in>set coupling. g \<noteq> [] \<or> fullyRedundant)
        \<and> (\<forall>g\<in>set coupling. 1 < length g \<or> excludeCorners)"
    then have "\<forall>g\<in>set coupling. g \<noteq> [] \<or> fullyRedundant" by blast
    then have "int (sum_list (map (rowsOfGroup fullyRedundant) coupling)) =
        sum_list (map (theoreticalCount fullyRedundant) coupling)"
      by (rule realized_eq_theoretical)
    with h show "countLagrangeMult fullyRedundant excludeCorners coupling 0 =
              Inr (int (fst (jumpEntries fullyRedundant coupling nP)))"
      by (simp add: countLagrangeMult_eq fst_jumpEntries)
  qed
  show ?thesis
    using minimal redundant pairs empty two three refused total distinct_jumpPairs fst_jumpEntries
    by blast
qed

text \<open>
  C1 at two squares with biquadratic bases that share an edge: three coupled dofs, the
  two ends of the edge at corners and the middle one not. The realized total equals
  the count made beforehand without \<^verbatim>\<open>excludeCorners\<close> (3 rows, each with \<open>+1\<close> at occurrence
  0 and \<open>-1\<close> at occurrence 1 of its group) and with it in the fully redundant build
  (1 row). In the minimal build with \<^verbatim>\<open>excludeCorners\<close> the two emptied groups are counted
  as \<open>-1\<close> each: the count is \<open>-1\<close>, the loops emit 1 row, and the final check of the
  total fails.
\<close>

theorem emptied_groups_break_the_total:
  "findCoupling quad_state = [[(0, 2), (1, 0)], [(0, 5), (1, 3)], [(0, 8), (1, 6)]]
   \<and> errorOf (computeJumpMatrices False False quad_state) = None
   \<and> numLagrangeMult (projr (computeJumpMatrices False False quad_state)) = 3
   \<and> map jm_entries (m_jumpMatrices (projr (computeJumpMatrices False False quad_state))) =
       [[(0, 2, 1), (1, 5, 1), (2, 8, 1)], [(0, 0, - 1), (1, 3, - 1), (2, 6, - 1)]]
   \<and> eraseCorners quad_state (findCoupling quad_state) = [[], [(0, 5), (1, 3)], []]
   \<and> errorOf (computeJumpMatrices True True quad_state) = None
   \<and> numLagrangeMult (projr (computeJumpMatrices True True quad_state)) = 1
   \<and> map jm_entries (m_jumpMatrices (projr (computeJumpMatrices True True quad_state))) =
       [[(0, 5, 1)], [(0, 3, - 1)]]
   \<and> countLagrangeMult False True (eraseCorners quad_state (findCoupling quad_state)) 0 = Inr (- 1)
   \<and> fst (jumpEntries False (eraseCorners quad_state (findCoupling quad_state)) 2) = 1
   \<and> errorOf (computeJumpMatrices False True quad_state) = Some InternalInvariantViolation"
  by code_simp

subsection \<open>What the builders leave alone\<close>

lemma errorOf_None: "errorOf r = None \<Longrightarrow> r = Inr (projr r)"
  by (cases r) (simp_all add: errorOf_def)

lemma errorOf_Some: "errorOf r = Some e \<Longrightarrow> r = Inl e"
  by (cases r) (simp_all add: errorOf_def)

lemma push_constraint_frame [simp]:
  "m_status (push_constraint k c p st) = m_status st"
  "m_multiBasis (push_constraint k c p st) = m_multiBasis st"
  "m_dofMapperGlobal (push_constraint k c p st) = m_dofMapperGlobal st"
  "m_dofMapperLocal (push_constraint k c p st) = m_dofMapperLocal st"
  "m_nPrimalDofs (push_constraint k c p st) = m_nPrimalDofs st"
  "m_artificialDofInfo (push_constraint k c p st) = m_artificialDofInfo st"
  "m_jumpMatrices (push_constraint k c p st) = m_jumpMatrices st"
  by (simp_all add: push_constraint_def)







subsection \<open>Phases\<close>


















subsection \<open>The counter of primal dofs\<close>

lemma cornerLoop_counter_ge:
  "n \<le> m_nPrimalDofs st \<Longrightarrow> n \<le> m_nPrimalDofs (cornerLoop cs l st)"
  by (induction cs arbitrary: l st) (simp_all add: Let_def)

lemma cornerLoop_counter: "m_nPrimalDofs st \<le> m_nPrimalDofs (cornerLoop cs l st)"
  by (rule cornerLoop_counter_ge) simp

lemma constraintLoop_counter_ge:
  "n \<le> m_nPrimalDofs st \<Longrightarrow> n \<le> m_nPrimalDofs (constraintLoop w prev cs st)"
  by (induction cs arbitrary: prev st) (simp_all add: Let_def)

lemma constraintLoop_counter:
  "m_nPrimalDofs st \<le> m_nPrimalDofs (constraintLoop w prev cs st)"
  by (rule constraintLoop_counter_ge) simp

lemma componentsLoop_counter:
  "componentsLoop srt geo d comps st = Inr st' \<Longrightarrow> m_nPrimalDofs st \<le> m_nPrimalDofs st'"
proof (induction comps arbitrary: st)
  case Nil
  then show ?case by simp
next
  case (Cons cmp comps)
  show ?case
  proof (cases cmp)
    case Nil
    with Cons show ?thesis by simp
  next
    case (Cons c0 rest)
    show ?thesis
    proof (cases "int (pc_dim c0) = d")
      case False
      with Cons Cons.prems Cons.IH show ?thesis by simp
    next
      case True
      with Cons Cons.prems obtain cs where
        rec: "componentsLoop srt geo d comps
                (constraintLoop (int (mb_dim (m_multiBasis st)) = d) None (srt cs) st) = Inr st'"
        by (auto split: sum.splits)
      have "m_nPrimalDofs st \<le> m_nPrimalDofs
          (constraintLoop (int (mb_dim (m_multiBasis st)) = d) None (srt cs) st)"
        by (rule constraintLoop_counter)
      also have "\<dots> \<le> m_nPrimalDofs st'" by (rule Cons.IH [OF rec])
      finally show ?thesis .
    qed
  qed
qed

lemma fold_push_counter:
  "m_nPrimalDofs (fold (\<lambda>entry s. push_constraint (fst entry) (snd entry)
       (int (m_nPrimalDofs s)) s) data st) = m_nPrimalDofs st"
  by (induction data arbitrary: st) simp_all

lemma runBuilder_counter:
  "runBuilder c st = Inr st' \<Longrightarrow> m_nPrimalDofs st \<le> m_nPrimalDofs st'"
proof (cases c)
  case (CornersAsPrimals srt)
  assume "runBuilder c st = Inr st'"
  with CornersAsPrimals
  have "st' = cornerLoop (srt (collectCorners (st\<lparr>m_status := m_status st OR 8\<rparr>))) (- 1)
                (st\<lparr>m_status := m_status st OR 8\<rparr>)"
    by (auto simp: cornersAsPrimals_def Let_def split: if_splits)
  then show ?thesis
    using cornerLoop_counter [of "st\<lparr>m_status := m_status st OR 8\<rparr>"] by simp
next
  case (InterfaceAveragesAsPrimals srt geo d)
  assume "runBuilder c st = Inr st'"
  with InterfaceAveragesAsPrimals
  have "componentsLoop srt geo d (allComponents geo)
      (st\<lparr>m_status := m_status st OR push_bit (nat (3 + d)) 1\<rparr>) = Inr st'"
    by (auto simp: interfaceAveragesAsPrimals_def Let_def split: if_splits)
  from componentsLoop_counter [OF this] show ?thesis by simp
next
  case (CustomPrimalConstraints data)
  assume "runBuilder c st = Inr st'"
  with CustomPrimalConstraints show ?thesis
    by (auto simp: customPrimalConstraints_def Let_def fold_push_counter split: if_splits)
qed

text \<open>
  C8. The counter of primal dofs is one field of the mapper, which all builders
  increment. After any sequence of calls of the corner builder, the interface builder
  (for any dimensions) and the custom builder, in any order, that all succeed, the
  counter is at least what it was before; a sequence of one call is one call.
\<close>

theorem primal_counter_monotone:
  "runBuilders calls st = Inr st' \<Longrightarrow> m_nPrimalDofs st \<le> m_nPrimalDofs st'"
proof (induction calls arbitrary: st)
  case Nil
  then show ?case by simp
next
  case (Cons c calls)
  from Cons.prems obtain mid where
    first: "runBuilder c st = Inr mid" and rest: "runBuilders calls mid = Inr st'"
    by (auto split: sum.splits)
  have "m_nPrimalDofs st \<le> m_nPrimalDofs mid" using first by (rule runBuilder_counter)
  also have "\<dots> \<le> m_nPrimalDofs st'" using rest by (rule Cons.IH)
  finally show ?case .
qed

theorem primal_counter_monotone_witness:
  "errorOf (runBuilders ex_calls ex_state) = None
   \<and> m_nPrimalDofs ex_state = 0
   \<and> m_nPrimalDofs (projr (runBuilders (take 1 ex_calls) ex_state)) = 4
   \<and> m_nPrimalDofs (projr (runBuilders (take 2 ex_calls) ex_state)) = 5
   \<and> m_nPrimalDofs (projr (runBuilders (take 3 ex_calls) ex_state)) = 6
   \<and> m_nPrimalDofs (projr (runBuilders ex_calls ex_state)) = 8
   \<and> m_nPrimalDofs ex_state \<le> m_nPrimalDofs (projr (runBuilders ex_calls ex_state))"
proof -
  have ok: "errorOf (runBuilders ex_calls ex_state) = None"
    by code_simp
  have counts: "m_nPrimalDofs ex_state = 0
      \<and> m_nPrimalDofs (projr (runBuilders (take 1 ex_calls) ex_state)) = 4
      \<and> m_nPrimalDofs (projr (runBuilders (take 2 ex_calls) ex_state)) = 5
      \<and> m_nPrimalDofs (projr (runBuilders (take 3 ex_calls) ex_state)) = 6
      \<and> m_nPrimalDofs (projr (runBuilders ex_calls ex_state)) = 8"
    by code_simp
  from primal_counter_monotone [OF errorOf_None [OF ok]] ok counts show ?thesis by blast
qed

subsection \<open>Sorting and the two orders\<close>

lemma mset_insert_by: "mset (insert_by lt x ys) = add_mset x (mset ys)"
  by (induction ys) simp_all

lemma set_insert_by: "set (insert_by lt x ys) = insert x (set ys)"
  by (metis mset_insert_by set_mset_add_mset_insert set_mset_mset)

lemma sorted_insert_by:
  assumes sw: "strict_weak lt"
  shows "sorted_wrt (\<lambda>a b. \<not> lt b a) ys \<Longrightarrow> sorted_wrt (\<lambda>a b. \<not> lt b a) (insert_by lt x ys)"
proof (induction ys)
  case Nil
  show ?case by simp
next
  case (Cons y ys)
  from sw have asym: "\<And>a b. lt a b \<Longrightarrow> \<not> lt b a"
    and trans: "\<And>a b c. \<not> lt b a \<Longrightarrow> \<not> lt c b \<Longrightarrow> \<not> lt c a"
    unfolding strict_weak_def by blast+
  from Cons.prems have tail: "sorted_wrt (\<lambda>a b. \<not> lt b a) ys"
    and head: "\<forall>z\<in>set ys. \<not> lt z y" by simp_all
  show ?case
  proof (cases "lt y x")
    case True
    then have "\<not> lt x y" by (rule asym)
    with True head Cons.IH [OF tail] show ?thesis
      by (simp add: set_insert_by)
  next
    case False
    have "\<forall>z\<in>set ys. \<not> lt z x"
    proof
      fix z assume "z \<in> set ys"
      with head have "\<not> lt z y" by simp
      with False show "\<not> lt z x" by (rule trans)
    qed
    with False Cons.prems show ?thesis by simp
  qed
qed

lemma std_sort_sort_by: "strict_weak lt \<Longrightarrow> std_sort lt (sort_by lt)"
proof -
  assume sw: "strict_weak lt"
  have "mset (foldr (insert_by lt) xs []) = mset xs
      \<and> sorted_wrt (\<lambda>a b. \<not> lt b a) (foldr (insert_by lt) xs [])" for xs
    by (induction xs) (simp_all add: mset_insert_by sorted_insert_by [OF sw])
  then show ?thesis by (simp add: std_sort_def sort_by_def)
qed

lemma strict_weak_dof_less: "strict_weak dof_less"
  by (auto simp: strict_weak_def dof_less_def)

lemma first_difference_irrefl: "\<not> first_difference xs xs"
  by (induction xs) simp_all

lemma first_difference_total:
  "length xs = length ys \<Longrightarrow> xs \<noteq> ys \<Longrightarrow> first_difference xs ys \<or> first_difference ys xs"
  by (induction xs ys rule: first_difference.induct) auto

lemma first_difference_asym: "first_difference xs ys \<Longrightarrow> \<not> first_difference ys xs"
  by (induction xs ys rule: first_difference.induct) (auto split: if_splits)

lemma first_difference_trans:
  "first_difference xs ys \<Longrightarrow> first_difference ys zs \<Longrightarrow> first_difference xs zs"
proof (induction xs ys arbitrary: zs rule: first_difference.induct)
  case (1 x xs y ys)
  then show ?case by (cases zs) (auto split: if_splits)
qed simp_all

lemma first_difference_nth:
  "length xs = length ys \<Longrightarrow>
   first_difference xs ys \<longleftrightarrow> (\<exists>i<length xs. take i xs = take i ys \<and> xs ! i < ys ! i)"
proof (induction xs ys rule: first_difference.induct)
  case (1 x xs y ys)
  show ?case
  proof (cases "x = y")
    case False
    have "(\<exists>i<length (x # xs). take i (x # xs) = take i (y # ys) \<and> (x # xs) ! i < (y # ys) ! i)
        \<longleftrightarrow> x < y"
    proof
      assume "\<exists>i<length (x # xs). take i (x # xs) = take i (y # ys) \<and> (x # xs) ! i < (y # ys) ! i"
      then obtain i where i: "take i (x # xs) = take i (y # ys)" "(x # xs) ! i < (y # ys) ! i"
        by blast
      with False show "x < y" by (cases i) simp_all
    next
      assume "x < y"
      then have "0 < length (x # xs) \<and> take 0 (x # xs) = take 0 (y # ys) \<and> (x # xs) ! 0 < (y # ys) ! 0"
        by simp
      then show "\<exists>i<length (x # xs). take i (x # xs) = take i (y # ys) \<and> (x # xs) ! i < (y # ys) ! i"
        by blast
    qed
    with False show ?thesis by simp
  next
    case True
    from "1.prems" have len: "length xs = length ys" by simp
    have "(\<exists>i<length (x # xs). take i (x # xs) = take i (y # ys) \<and> (x # xs) ! i < (y # ys) ! i)
        \<longleftrightarrow> (\<exists>i<length xs. take i xs = take i ys \<and> xs ! i < ys ! i)"
    proof
      assume "\<exists>i<length (x # xs). take i (x # xs) = take i (y # ys) \<and> (x # xs) ! i < (y # ys) ! i"
      then obtain i where i: "i < length (x # xs)" "take i (x # xs) = take i (y # ys)"
        "(x # xs) ! i < (y # ys) ! i" by blast
      with True obtain j where "i = Suc j" by (cases i) simp_all
      with i have "j < length xs \<and> take j xs = take j ys \<and> xs ! j < ys ! j" by simp
      then show "\<exists>i<length xs. take i xs = take i ys \<and> xs ! i < ys ! i" by blast
    next
      assume "\<exists>i<length xs. take i xs = take i ys \<and> xs ! i < ys ! i"
      then obtain j where "j < length xs" "take j xs = take j ys" "xs ! j < ys ! j" by blast
      with True have "Suc j < length (x # xs) \<and> take (Suc j) (x # xs) = take (Suc j) (y # ys)
          \<and> (x # xs) ! Suc j < (y # ys) ! Suc j" by simp
      then show "\<exists>i<length (x # xs). take i (x # xs) = take i (y # ys) \<and> (x # xs) ! i < (y # ys) ! i"
        by blast
    qed
    with True "1.IH" len show ?thesis by simp
  qed
qed simp_all

lemma constr_less_same: "globalIndices a = globalIndices b \<Longrightarrow> \<not> constr_less a b"
  by (simp add: constr_less_def first_difference_irrefl)

lemma constr_less_total:
  "globalIndices a \<noteq> globalIndices b \<Longrightarrow> constr_less a b \<or> constr_less b a"
  using first_difference_total [of "globalIndices a" "globalIndices b"]
  by (auto simp: constr_less_def Let_def)

lemma constr_less_cong:
  "globalIndices a = globalIndices a' \<Longrightarrow> globalIndices b = globalIndices b' \<Longrightarrow>
   constr_less a b = constr_less a' b'"
  by (simp add: constr_less_def)

lemma constr_less_asym: "constr_less a b \<Longrightarrow> \<not> constr_less b a"
  by (auto simp: constr_less_def Let_def first_difference_asym split: if_splits)

lemma constr_less_trans: "constr_less a b \<Longrightarrow> constr_less b c \<Longrightarrow> constr_less a c"
  by (auto simp: constr_less_def Let_def split: if_splits intro: first_difference_trans)

lemma strict_weak_constr_less: "strict_weak constr_less"
proof -
  have neg: "\<not> constr_less c a" if ab: "\<not> constr_less b a" and bc: "\<not> constr_less c b" for a b c
  proof
    assume ca: "constr_less c a"
    show False
    proof (cases "globalIndices a = globalIndices b")
      case True
      with ca have "constr_less c b" using constr_less_cong [of c c a b] by simp
      with bc show False by simp
    next
      case False
      with ab constr_less_total [of a b] have "constr_less a b" by blast
      with ca have "constr_less c b" by (rule constr_less_trans)
      with bc show False by simp
    qed
  qed
  show ?thesis
    unfolding strict_weak_def using constr_less_asym neg by blast
qed

subsection \<open>The loops over sorted tuples, run by run\<close>




lemma cornerLoop_run:
  "\<forall>c\<in>set p. int (globalIndex c) = l \<Longrightarrow>
   cornerLoop (p @ rest) l st =
   cornerLoop rest l
     (fold (\<lambda>c s. push_constraint (patch c)
                    \<lparr>sv_size = l_freeSize (m_dofMapperLocal s ! patch c),
                     sv_entries = [(localIndex c, 1)]\<rparr> (int (m_nPrimalDofs st) - 1) s) p st)"
proof (induction p arbitrary: st)
  case Nil
  show ?case by simp
next
  case (Cons c p)
  then show ?case
    by (simp add: Let_def unitConstraint_def sv_assign_def sv_zero_def)
qed

lemma cornerLoop_runs:
  "cs = [] \<or> l \<noteq> int (globalIndex (hd cs)) \<Longrightarrow>
   cornerLoop cs l st = cornerRuns (runs globalIndex cs) st"
proof (induction "globalIndex :: dof_helper \<Rightarrow> nat" cs arbitrary: l st rule: runs.induct)
  case 1
  show ?case by simp
next
  case (2 x xs)
  let ?p = "takeWhile (\<lambda>y. globalIndex y = globalIndex x) xs"
  let ?d = "dropWhile (\<lambda>y. globalIndex y = globalIndex x) xs"
  let ?st1 = "st\<lparr>m_nPrimalDofs := m_nPrimalDofs st + 1\<rparr>"
  let ?push = "\<lambda>c s. push_constraint (patch c)
                    \<lparr>sv_size = l_freeSize (m_dofMapperLocal s ! patch c),
                     sv_entries = [(localIndex c, 1)]\<rparr> (int (m_nPrimalDofs st)) s"
  from "2.prems" have fresh: "l \<noteq> int (globalIndex x)" by simp
  have same: "\<forall>c\<in>set ?p. int (globalIndex c) = int (globalIndex x)"
    by (auto dest: set_takeWhileD)
  have next_differs: "?d = [] \<or> int (globalIndex x) \<noteq> int (globalIndex (hd ?d))"
  proof (cases "?d = []")
    case True
    then show ?thesis by simp
  next
    case False
    from hd_dropWhile [OF this] show ?thesis by simp
  qed
  have "cornerLoop (x # xs) l st = cornerLoop (?p @ ?d) (int (globalIndex x)) (?push x ?st1)"
    using fresh by (simp add: Let_def unitConstraint_def sv_assign_def sv_zero_def)
  also have "\<dots> = cornerLoop ?d (int (globalIndex x)) (fold ?push ?p (?push x ?st1))"
    using cornerLoop_run [OF same, of ?d "?push x ?st1"] by simp
  also have "\<dots> = cornerRuns (runs globalIndex ?d) (fold ?push (x # ?p) ?st1)"
    using "2.hyps" [OF next_differs] by simp
  also have "\<dots> = cornerRuns (runs globalIndex (x # xs)) st"
    by (simp add: Let_def)
  finally show ?case .
qed


lemma constraintLoop_run:
  "\<forall>c\<in>set p. globalIndices c = globalIndices prev \<Longrightarrow>
   constraintLoop whole (Some prev) (p @ rest) st =
   constraintLoop whole (Some (last (prev # p))) rest
     (fold (\<lambda>c s. push_constraint (cpatch c) (vector c) (int (m_nPrimalDofs st) - 1) s) p st)"
proof (induction p arbitrary: prev st)
  case Nil
  show ?case by simp
next
  case (Cons c p)
  from Cons.prems have same: "globalIndices c = globalIndices prev"
    and rest: "\<forall>c'\<in>set p. globalIndices c' = globalIndices c" by simp_all
  from same have notfirst: "\<not> constr_less prev c" by (simp add: constr_less_same)
  show ?case
    using notfirst Cons.IH [OF rest] by (simp add: Let_def)
qed

lemma constraintLoop_runs:
  "sorted_wrt (\<lambda>a b. \<not> constr_less b a) cs \<Longrightarrow>
   (case prev of None \<Rightarrow> True | Some p \<Rightarrow> cs = [] \<or> constr_less p (hd cs)) \<Longrightarrow>
   constraintLoop whole prev cs st = constraintRuns whole (runs globalIndices cs) st"
proof (induction "globalIndices :: constr_helper \<Rightarrow> nat list" cs arbitrary: prev st rule: runs.induct)
  case 1
  show ?case by simp
next
  case (2 x xs)
  let ?same = "\<lambda>y :: constr_helper. globalIndices y = globalIndices x"
  let ?p = "takeWhile ?same xs"
  let ?d = "dropWhile ?same xs"
  let ?st1 = "st\<lparr>m_nPrimalDofs := m_nPrimalDofs st + 1\<rparr>"
  let ?push = "\<lambda>c s. push_constraint (cpatch c) (vector c) (int (m_nPrimalDofs st)) s"
  from "2.prems"(1) have later: "\<forall>y\<in>set xs. \<not> constr_less y x"
    and sorted_xs: "sorted_wrt (\<lambda>a b. \<not> constr_less b a) xs" by simp_all
  from sorted_xs have "sorted_wrt (\<lambda>a b. \<not> constr_less b a) (?p @ ?d)" by simp
  then have sorted_d: "sorted_wrt (\<lambda>a b. \<not> constr_less b a) ?d"
    unfolding sorted_wrt_append by blast
  from "2.prems"(2) have first: "(case prev of None \<Rightarrow> True | Some p \<Rightarrow> constr_less p x)"
    by (cases prev) simp_all
  have same: "\<forall>c\<in>set ?p. globalIndices c = globalIndices x"
    by (auto dest: set_takeWhileD)
  have last_key: "globalIndices (last (x # ?p)) = globalIndices x"
  proof (cases "?p = []")
    case True
    then show ?thesis by simp
  next
    case False
    then have "last ?p \<in> set ?p" by (rule last_in_set)
    then have "globalIndices (last ?p) = globalIndices x" by (rule same [rule_format])
    with False show ?thesis by simp
  qed
  have boundary: "?d = [] \<or> constr_less (last (x # ?p)) (hd ?d)"
  proof (cases "?d = []")
    case True
    then show ?thesis by simp
  next
    case False
    from hd_dropWhile [OF this] have differ: "globalIndices (hd ?d) \<noteq> globalIndices x" .
    have "hd ?d \<in> set xs" using False by (metis hd_in_set set_dropWhileD)
    with later have "\<not> constr_less (hd ?d) x" by simp
    with differ constr_less_total [of x "hd ?d"] have "constr_less x (hd ?d)" by auto
    with last_key show ?thesis
      using constr_less_cong [of "last (x # ?p)" x "hd ?d" "hd ?d"] by simp
  qed
  have shared: "(case xs of [] \<Rightarrow> False | c' # _ \<Rightarrow> \<not> constr_less x c') = (?p \<noteq> [])"
  proof (cases xs)
    case Nil
    then show ?thesis by simp
  next
    case (Cons c' rest)
    with later have "\<not> constr_less c' x" by simp
    then have "(\<not> constr_less x c') = (globalIndices c' = globalIndices x)"
      using constr_less_total [of x c'] constr_less_same [of x c'] by metis
    with Cons show ?thesis by simp
  qed
  have len: "(2 \<le> length (x # ?p)) = (?p \<noteq> [])"
    by (cases ?p) simp_all
  have pre: "case Some (last (x # ?p)) of None \<Rightarrow> True
             | Some p \<Rightarrow> ?d = [] \<or> constr_less p (hd ?d)"
    unfolding option.case by (rule boundary)
  note IH = "2.hyps" [OF sorted_d pre]
  show ?case
  proof (cases "?p \<noteq> [] \<or> whole")
    case True
    have "constraintLoop whole prev (x # xs) st =
        constraintLoop whole (Some x) (?p @ ?d) (?push x ?st1)"
      using first shared True by (simp add: Let_def)
    also have "\<dots> = constraintLoop whole (Some (last (x # ?p))) ?d (fold ?push ?p (?push x ?st1))"
      using constraintLoop_run [OF same, of whole ?d "?push x ?st1"] by simp
    also have "\<dots> = constraintRuns whole (runs globalIndices ?d) (fold ?push (x # ?p) ?st1)"
      using IH by simp
    also have "\<dots> = constraintRuns whole (runs globalIndices (x # xs)) st"
      using True len by (simp add: Let_def)
    finally show ?thesis .
  next
    case False
    then have empty: "?p = []" and nw: "\<not> whole" by simp_all
    from empty have d_eq: "?d = xs"
      by (metis append_Nil takeWhile_dropWhile_id)
    have "constraintLoop whole prev (x # xs) st = constraintLoop whole (Some x) xs st"
      using first shared False by (simp add: Let_def)
    also have "\<dots> = constraintLoop whole (Some x) ?d st"
      by (simp only: d_eq)
    also have "\<dots> = constraintRuns whole (runs globalIndices ?d) st"
      using IH empty by simp
    also have "\<dots> = constraintRuns whole (runs globalIndices (x # xs)) st"
      using empty nw by simp
    finally show ?thesis .
  qed
qed

subsection \<open>Facts about runs\<close>

lemma runs_concat: "concat (runs key xs) = xs"
  by (induction key xs rule: runs.induct) simp_all

lemma runs_same_key:
  "r \<in> set (runs key xs) \<Longrightarrow> r \<noteq> [] \<and> (\<forall>c\<in>set r. key c = key (hd r))"
proof (induction key xs rule: runs.induct)
  case (1 key)
  then show ?case by simp
next
  case (2 key x xs)
  show ?case
  proof (cases "r = x # takeWhile (\<lambda>y. key y = key x) xs")
    case True
    have "\<And>c. c \<in> set (takeWhile (\<lambda>y. key y = key x) xs) \<Longrightarrow> key c = key x"
      by (blast dest: set_takeWhileD)
    then show ?thesis unfolding True list.sel set_simps by blast
  next
    case False
    with "2.prems" have "r \<in> set (runs key (dropWhile (\<lambda>y. key y = key x) xs))" by simp
    then show ?thesis by (rule "2.IH")
  qed
qed

lemma runs_hd_in_set: "r \<in> set (runs key xs) \<Longrightarrow> hd r \<in> set xs"
proof -
  assume r: "r \<in> set (runs key xs)"
  from runs_same_key [OF r] have "r \<noteq> []" by blast
  then have "hd r \<in> set r" by (rule hd_in_set)
  with r have "hd r \<in> set (concat (runs key xs))" by auto
  then show ?thesis by (simp only: runs_concat)
qed

text \<open>
  In a sorted list the runs are maximal: the first elements of the runs strictly
  increase, so no two runs share a key.
\<close>

lemma runs_increasing:
  assumes sw: "strict_weak lt"
    and total: "\<And>a b. key a \<noteq> key b \<Longrightarrow> lt a b \<or> lt b a"
  shows "sorted_wrt (\<lambda>a b. \<not> lt b a) xs \<Longrightarrow>
         sorted_wrt (\<lambda>r r'. lt (hd r) (hd r')) (runs key xs)"
proof (induction "length xs" arbitrary: xs rule: less_induct)
  case less
  show ?case
  proof (cases xs)
    case Nil
    then show ?thesis by simp
  next
    case (Cons x ys)
    let ?p = "takeWhile (\<lambda>y. key y = key x) ys"
    let ?d = "dropWhile (\<lambda>y. key y = key x) ys"
    from sw have trans: "\<And>a b c. \<not> lt b a \<Longrightarrow> \<not> lt c b \<Longrightarrow> \<not> lt c a"
      and irrefl: "\<And>a. \<not> lt a a"
      unfolding strict_weak_def by blast+
    from less.prems Cons have later: "\<forall>y\<in>set ys. \<not> lt y x"
      and sorted_ys: "sorted_wrt (\<lambda>a b. \<not> lt b a) ys" by simp_all
    from sorted_ys have "sorted_wrt (\<lambda>a b. \<not> lt b a) (?p @ ?d)" by simp
    then have sorted_d: "sorted_wrt (\<lambda>a b. \<not> lt b a) ?d"
      unfolding sorted_wrt_append by blast
    have "length ?d < length xs"
      using Cons length_dropWhile_le [of "\<lambda>y. key y = key x" ys] by simp
    from less.hyps [OF this sorted_d]
    have IH: "sorted_wrt (\<lambda>r r'. lt (hd r) (hd r')) (runs key ?d)" .
    have after: "lt x (hd r)" if r: "r \<in> set (runs key ?d)" for r
    proof -
      have nonempty: "?d \<noteq> []"
      proof
        assume "?d = []"
        then have "runs key ?d = []" by (simp only: runs.simps)
        with r show False by simp
      qed
      from hd_dropWhile [OF nonempty] have differ: "key (hd ?d) \<noteq> key x" .
      have "hd ?d \<in> set ?d" using nonempty by (rule hd_in_set)
      then have "hd ?d \<in> set ys" by (rule set_dropWhileD)
      with later have notless: "\<not> lt (hd ?d) x" by blast
      from differ have "key x \<noteq> key (hd ?d)" by (rule not_sym)
      from total [OF this] notless have first: "lt x (hd ?d)" by blast
      have cons: "hd ?d # tl ?d = ?d" using nonempty by (rule hd_Cons_tl)
      from r have "hd r \<in> set ?d" by (rule runs_hd_in_set)
      then have "hd r \<in> set (hd ?d # tl ?d)" by (simp only: cons)
      then have "hd r = hd ?d \<or> hd r \<in> set (tl ?d)" by (simp only: set_simps insert_iff)
      moreover from sorted_d have "sorted_wrt (\<lambda>a b. \<not> lt b a) (hd ?d # tl ?d)"
        by (simp only: cons)
      then have "\<forall>z\<in>set (tl ?d). \<not> lt z (hd ?d)"
        by (simp only: sorted_wrt.simps) blast
      ultimately have "\<not> lt (hd r) (hd ?d)"
        using irrefl by metis
      show "lt x (hd r)"
      proof (rule ccontr)
        assume "\<not> lt x (hd r)"
        with \<open>\<not> lt (hd r) (hd ?d)\<close> have "\<not> lt x (hd ?d)" by (rule trans)
        with first show False by simp
      qed
    qed
    have "runs key xs = (x # ?p) # runs key ?d" unfolding Cons by (rule runs.simps)
    moreover have "sorted_wrt (\<lambda>r r'. lt (hd r) (hd r')) ((x # ?p) # runs key ?d)"
      unfolding sorted_wrt.simps list.sel using IH after by blast
    ultimately show ?thesis by (simp only:)
  qed
qed

lemma cornerRuns_counter: "m_nPrimalDofs (cornerRuns rs st) = m_nPrimalDofs st + length rs"
proof (induction rs arbitrary: st)
  case Nil
  show ?case by simp
next
  case (Cons r rs)
  have keep: "m_nPrimalDofs (fold (\<lambda>c s. push_constraint (patch c)
        \<lparr>sv_size = l_freeSize (m_dofMapperLocal s ! patch c), sv_entries = [(localIndex c, 1)]\<rparr>
        p s) r s0) = m_nPrimalDofs s0" for p s0
    by (induction r arbitrary: s0) simp_all
  show ?case by (simp add: Let_def Cons.IH keep)
qed

lemma constraintRuns_counter:
  "m_nPrimalDofs (constraintRuns whole rs st) =
     m_nPrimalDofs st + length (filter (\<lambda>r. 2 \<le> length r \<or> whole) rs)"
proof (induction rs arbitrary: st)
  case Nil
  show ?case by simp
next
  case (Cons r rs)
  have keep: "m_nPrimalDofs (fold (\<lambda>c s. push_constraint (cpatch c) (vector c) p s) r s0) =
      m_nPrimalDofs s0" for p s0
    by (induction r arbitrary: s0) simp_all
  show ?case
  proof (cases "2 \<le> length r \<or> whole")
    case True
    then show ?thesis by (simp add: Let_def Cons.IH keep)
  next
    case False
    then have skip: "constraintRuns whole (r # rs) st = constraintRuns whole rs st"
      by simp
    from False have same: "filter (\<lambda>r. 2 \<le> length r \<or> whole) (r # rs) =
        filter (\<lambda>r. 2 \<le> length r \<or> whole) rs"
      by simp
    show ?thesis unfolding skip same by (rule Cons.IH)
  qed
qed

subsection \<open>Corners as primal dofs\<close>

lemma set_collectCorners:
  "set (collectCorners st) =
     {c. \<exists>k < length (m_dofMapperLocal st). \<exists>it \<in> set (boxCorners (mb_dim (m_multiBasis st))).
           c \<in> set (cornersOf st k it)}"
  by (auto simp: collectCorners_def)

lemma set_cornersOf:
  "set (cornersOf st k it) =
     (let dm = m_dofMapperGlobal st; idx = functionAtCorner (m_multiBasis st) k it;
          g = index dm idx k
      in if is_free_index dm g
         then if m_status st AND 2 = 0
              then {\<lparr>globalIndex = g, patch = k, localIndex = l_index (m_dofMapperLocal st ! k) idx\<rparr>}
              else (\<lambda>pre. \<lparr>globalIndex = g, patch = fst pre,
                            localIndex = l_index (m_dofMapperLocal st ! fst pre) (snd pre)\<rparr>)
                     ` set (preImage dm g)
         else {})"
  by (auto simp: cornersOf_def Let_def)

text \<open>
  C3. The corners collected for patch \<open>k\<close> and corner \<open>it\<close> are: nothing when the global
  index of the basis function there is not free; else the tuple of the patch itself
  when there are no artificial dofs, and one tuple for every pre-image of the global
  index when there are. When the corner builder succeeds with a sort that meets the
  contract of \<^verbatim>\<open>std::sort\<close>, the sorted tuples are a rearrangement of the collected ones;
  their runs of equal global index have strictly increasing global indices (each run is
  maximal); and the resulting mapper is the one in which each run got exactly one new
  primal dof and every tuple of the run pushed one unit row (a single 1 at its local
  index) against its patch, tagged with the dof of the run: the counter grows by the
  number of runs.
\<close>

theorem corners_as_primals:
  assumes srt: "std_sort dof_less srt" and ok: "cornersAsPrimals srt st = Inr st'"
  shows "let st1 = st\<lparr>m_status := m_status st OR 8\<rparr>; cs = srt (collectCorners st1)
         in set (collectCorners st1) =
              {c. \<exists>k < length (m_dofMapperLocal st).
                    \<exists>it \<in> set (boxCorners (mb_dim (m_multiBasis st))). c \<in> set (cornersOf st1 k it)}
            \<and> (\<forall>k it. set (cornersOf st1 k it) =
                 (let dm = m_dofMapperGlobal st; idx = functionAtCorner (m_multiBasis st) k it;
                      g = index dm idx k
                  in if is_free_index dm g
                     then if m_status st AND 2 = 0
                          then {\<lparr>globalIndex = g, patch = k,
                                 localIndex = l_index (m_dofMapperLocal st ! k) idx\<rparr>}
                          else (\<lambda>pre. \<lparr>globalIndex = g, patch = fst pre,
                                  localIndex = l_index (m_dofMapperLocal st ! fst pre) (snd pre)\<rparr>)
                                 ` set (preImage dm g)
                     else {}))
            \<and> mset cs = mset (collectCorners st1)
            \<and> concat (runs globalIndex cs) = cs
            \<and> (\<forall>r\<in>set (runs globalIndex cs).
                  r \<noteq> [] \<and> (\<forall>c\<in>set r. globalIndex c = globalIndex (hd r)))
            \<and> sorted_wrt (\<lambda>r r'. globalIndex (hd r) < globalIndex (hd r')) (runs globalIndex cs)
            \<and> st' = cornerRuns (runs globalIndex cs) st1
            \<and> m_nPrimalDofs st' = m_nPrimalDofs st + length (runs globalIndex cs)"
proof -
  define st1 where "st1 = st\<lparr>m_status := m_status st OR 8\<rparr>"
  define cs where "cs = srt (collectCorners st1)"
  have bit: "m_status st1 AND 2 = 0 \<longleftrightarrow> m_status st AND 2 = 0"
  proof -
    have "(m_status st OR 8) AND 2 = m_status st AND 2"
      by (simp add: bit.conj_disj_distrib2)
    then show ?thesis by (simp add: st1_def)
  qed
  from srt have perm: "mset cs = mset (collectCorners st1)"
    and sorted: "sorted_wrt (\<lambda>a b. \<not> dof_less b a) cs"
    by (simp_all add: std_sort_def cs_def)
  have collected: "set (collectCorners st1) =
      {c. \<exists>k < length (m_dofMapperLocal st).
            \<exists>it \<in> set (boxCorners (mb_dim (m_multiBasis st))). c \<in> set (cornersOf st1 k it)}"
    using set_collectCorners [of st1] by (simp add: st1_def)
  have tuples: "\<forall>k it. set (cornersOf st1 k it) =
      (let dm = m_dofMapperGlobal st; idx = functionAtCorner (m_multiBasis st) k it;
           g = index dm idx k
       in if is_free_index dm g
          then if m_status st AND 2 = 0
               then {\<lparr>globalIndex = g, patch = k,
                      localIndex = l_index (m_dofMapperLocal st ! k) idx\<rparr>}
               else (\<lambda>pre. \<lparr>globalIndex = g, patch = fst pre,
                       localIndex = l_index (m_dofMapperLocal st ! fst pre) (snd pre)\<rparr>)
                      ` set (preImage dm g)
          else {})"
  proof -
    have fields: "m_dofMapperGlobal st1 = m_dofMapperGlobal st"
      "m_multiBasis st1 = m_multiBasis st" "m_dofMapperLocal st1 = m_dofMapperLocal st"
      by (simp_all add: st1_def)
    show ?thesis unfolding set_cornersOf bit fields by (rule allI, rule allI, rule refl)
  qed
  have same: "\<forall>r\<in>set (runs globalIndex cs).
      r \<noteq> [] \<and> (\<forall>c\<in>set r. globalIndex c = globalIndex (hd r))"
    using runs_same_key [of _ globalIndex cs] by blast
  have total: "dof_less a b \<or> dof_less b a" if "globalIndex a \<noteq> globalIndex b" for a b
    using that by (auto simp: dof_less_def)
  have "sorted_wrt (\<lambda>r r'. dof_less (hd r) (hd r')) (runs globalIndex cs)"
    using strict_weak_dof_less total sorted by (rule runs_increasing)
  then have increasing:
    "sorted_wrt (\<lambda>r r'. globalIndex (hd r) < globalIndex (hd r')) (runs globalIndex cs)"
    by (simp add: dof_less_def)
  from ok have "st' = cornerLoop cs (- 1) st1"
    by (auto simp: cornersAsPrimals_def Let_def st1_def cs_def split: if_splits)
  moreover have "cs = [] \<or> (- 1 :: int) \<noteq> int (globalIndex (hd cs))" by simp
  ultimately have result: "st' = cornerRuns (runs globalIndex cs) st1"
    by (simp add: cornerLoop_runs)
  then have counter: "m_nPrimalDofs st' = m_nPrimalDofs st + length (runs globalIndex cs)"
    by (simp add: cornerRuns_counter st1_def)
  show ?thesis
    unfolding Let_def st1_def [symmetric] cs_def [symmetric]
    using collected tuples [unfolded Let_def] perm runs_concat [of globalIndex cs]
      same increasing result counter
    by blast
qed

theorem corners_as_primals_witness:
  "errorOf (cornersAsPrimals (sort_by dof_less) ex_state) = None
   \<and> map cornerTuple (collectCorners (ex_state\<lparr>m_status := m_status ex_state OR 8\<rparr>)) =
       [(2, 0, 0), (3, 0, 1), (2, 1, 0), (0, 1, 1), (3, 1, 2), (1, 1, 3)]
   \<and> map (map cornerTuple) (runs globalIndex
         (sort_by dof_less (collectCorners (ex_state\<lparr>m_status := m_status ex_state OR 8\<rparr>)))) =
       [[(0, 1, 1)], [(1, 1, 3)], [(2, 0, 0), (2, 1, 0)], [(3, 0, 1), (3, 1, 2)]]
   \<and> m_nPrimalDofs (projr (cornersAsPrimals (sort_by dof_less) ex_state)) = 4
   \<and> m_primalDofIndices (projr (cornersAsPrimals (sort_by dof_less) ex_state)) =
       [[2, 3], [0, 1, 2, 3]]
   \<and> map (map sv_entries) (m_primalConstraints (projr (cornersAsPrimals (sort_by dof_less) ex_state))) =
       [[[(0, 1)], [(1, 1)]], [[(1, 1)], [(3, 1)], [(0, 1)], [(2, 1)]]]
   \<and> m_nPrimalDofs (projr (cornersAsPrimals (sort_by dof_less) ex_state)) =
       m_nPrimalDofs ex_state + length (runs globalIndex
         (sort_by dof_less (collectCorners (ex_state\<lparr>m_status := m_status ex_state OR 8\<rparr>))))"
proof -
  have ok: "errorOf (cornersAsPrimals (sort_by dof_less) ex_state) = None"
    by code_simp
  have seen: "map cornerTuple (collectCorners (ex_state\<lparr>m_status := m_status ex_state OR 8\<rparr>)) =
       [(2, 0, 0), (3, 0, 1), (2, 1, 0), (0, 1, 1), (3, 1, 2), (1, 1, 3)]
   \<and> map (map cornerTuple) (runs globalIndex
         (sort_by dof_less (collectCorners (ex_state\<lparr>m_status := m_status ex_state OR 8\<rparr>)))) =
       [[(0, 1, 1)], [(1, 1, 3)], [(2, 0, 0), (2, 1, 0)], [(3, 0, 1), (3, 1, 2)]]
   \<and> m_nPrimalDofs (projr (cornersAsPrimals (sort_by dof_less) ex_state)) = 4
   \<and> m_primalDofIndices (projr (cornersAsPrimals (sort_by dof_less) ex_state)) =
       [[2, 3], [0, 1, 2, 3]]
   \<and> map (map sv_entries) (m_primalConstraints (projr (cornersAsPrimals (sort_by dof_less) ex_state))) =
       [[[(0, 1)], [(1, 1)]], [[(1, 1)], [(3, 1)], [(0, 1)], [(2, 1)]]]"
    by code_simp
  note inst = corners_as_primals [OF std_sort_sort_by [OF strict_weak_dof_less] errorOf_None [OF ok]]
  from inst have "m_nPrimalDofs (projr (cornersAsPrimals (sort_by dof_less) ex_state)) =
       m_nPrimalDofs ex_state + length (runs globalIndex
         (sort_by dof_less (collectCorners (ex_state\<lparr>m_status := m_status ex_state OR 8\<rparr>))))"
    unfolding Let_def by blast
  with ok seen show ?thesis by blast
qed

subsection \<open>Interface averages as primal dofs\<close>

lemma artificialCopies_signature:
  "c' \<in> set (artificialCopies st c) \<Longrightarrow> globalIndices c' = globalIndices c"
  by (auto simp: artificialCopies_def Let_def split: if_splits)

lemma componentConstraints_signature:
  "componentConstraints st geo cmp = Inr cs \<Longrightarrow> c \<in> set cs \<Longrightarrow> sorted (globalIndices c)"
proof (induction cmp arbitrary: cs)
  case Nil
  then show ?case by simp
next
  case (Cons p cmp)
  from Cons.prems(1) obtain v rest where
    v: "assembleAverage geo (m_multiBasis st) (m_dofMapperLocal st ! pc_patch p) p = Inr v"
    and rest: "componentConstraints st geo cmp = Inr rest"
    by (auto simp: Let_def split: sum.splits)
  define constraint where "constraint =
     \<lparr>globalIndices = sort (map (\<lambda>e. index (m_dofMapperGlobal st)
          (l_inverse (m_dofMapperLocal st ! pc_patch p) (fst e)) (pc_patch p)) (sv_entries v)),
      vector = v, cpatch = pc_patch p\<rparr>"
  define pushed where "pushed =
     (if nonZeros v > 0
      then (if m_status st AND 2 \<noteq> 0 then artificialCopies st constraint else []) @ [constraint]
      else [])"
  from Cons.prems(1) v rest have cs: "cs = pushed @ rest"
    by (auto simp: Let_def pushed_def constraint_def)
  have own: "sorted (globalIndices constraint)" by (simp add: constraint_def)
  have "sorted (globalIndices c)" if "c \<in> set pushed"
  proof -
    from that have "c = constraint \<or> c \<in> set (artificialCopies st constraint)"
      by (auto simp: pushed_def split: if_splits)
    with own show ?thesis using artificialCopies_signature [of c st constraint] by auto
  qed
  moreover have "sorted (globalIndices c)" if "c \<in> set rest"
    using Cons.IH [OF rest that] .
  ultimately show ?case using Cons.prems(2) cs by auto
qed

lemma constr_less_meaning:
  "constr_less a b \<longleftrightarrow>
     length (globalIndices a) < length (globalIndices b)
     \<or> (length (globalIndices a) = length (globalIndices b)
        \<and> (\<exists>i < length (globalIndices a).
              take i (globalIndices a) = take i (globalIndices b)
              \<and> globalIndices a ! i < globalIndices b ! i))"
  using first_difference_nth [of "globalIndices a" "globalIndices b"]
  by (auto simp: constr_less_def Let_def)

lemma componentsLoop_runs:
  assumes srt: "std_sort constr_less srt"
  shows "componentsLoop srt geo d comps st = componentsRuns srt geo d comps st"
proof (induction comps arbitrary: st)
  case Nil
  show ?case by simp
next
  case (Cons cmp comps)
  have step: "constraintLoop w None (srt cs) st = constraintRuns w (runs globalIndices (srt cs)) st"
    for w cs
  proof (rule constraintLoop_runs)
    from srt show "sorted_wrt (\<lambda>a b. \<not> constr_less b a) (srt cs)"
      by (simp add: std_sort_def)
  qed simp
  show ?case
    by (simp add: step Cons.IH split: list.splits sum.splits)
qed

text \<open>
  C4. A signature is a sorted list of global indices, and signatures are compared first
  by length and then by their first difference. For a sort that meets the contract of
  \<^verbatim>\<open>std::sort\<close>, the sorted constraints of a component are a rearrangement of the
  gathered ones; their runs of equal signature have strictly increasing signatures (each
  run is maximal); and the loop over them does what the run-wise assignment does: a run
  of two or more gets one new primal dof shared by all its members; a run of one gets
  its own new primal dof only when \<open>whole\<close> holds (the component has the dimension of the
  domain); any other run of one pushes nothing and leaves the counter alone. The loop
  over all components, and so the whole builder, treats every component this way.
\<close>

theorem interface_averages_runs:
  assumes srt: "std_sort constr_less srt"
  shows "let cs = srt constraints
         in mset cs = mset constraints
            \<and> concat (runs globalIndices cs) = cs
            \<and> (\<forall>r\<in>set (runs globalIndices cs).
                  r \<noteq> [] \<and> (\<forall>c\<in>set r. globalIndices c = globalIndices (hd r)))
            \<and> sorted_wrt (\<lambda>r r'. constr_less (hd r) (hd r')) (runs globalIndices cs)
            \<and> constraintLoop whole None cs st = constraintRuns whole (runs globalIndices cs) st
            \<and> m_nPrimalDofs (constraintLoop whole None cs st) =
                m_nPrimalDofs st
                + length (filter (\<lambda>r. 2 \<le> length r \<or> whole) (runs globalIndices cs))
            \<and> componentsLoop srt geo d comps st = componentsRuns srt geo d comps st
            \<and> (componentConstraints st geo cmp = Inr constraints \<longrightarrow>
                  (\<forall>c\<in>set constraints. sorted (globalIndices c)))
            \<and> (constr_less a b \<longleftrightarrow>
                  length (globalIndices a) < length (globalIndices b)
                  \<or> (length (globalIndices a) = length (globalIndices b)
                     \<and> (\<exists>i < length (globalIndices a).
                           take i (globalIndices a) = take i (globalIndices b)
                           \<and> globalIndices a ! i < globalIndices b ! i)))"
proof -
  define cs where "cs = srt constraints"
  from srt have perm: "mset cs = mset constraints"
    and sorted: "sorted_wrt (\<lambda>a b. \<not> constr_less b a) cs"
    by (simp_all add: std_sort_def cs_def)
  have same: "\<forall>r\<in>set (runs globalIndices cs).
      r \<noteq> [] \<and> (\<forall>c\<in>set r. globalIndices c = globalIndices (hd r))"
    using runs_same_key [of _ globalIndices cs] by blast
  have increasing: "sorted_wrt (\<lambda>r r'. constr_less (hd r) (hd r')) (runs globalIndices cs)"
    using strict_weak_constr_less constr_less_total sorted by (rule runs_increasing)
  have loop: "constraintLoop whole None cs st = constraintRuns whole (runs globalIndices cs) st"
    using sorted by (rule constraintLoop_runs) simp
  then have counter: "m_nPrimalDofs (constraintLoop whole None cs st) =
      m_nPrimalDofs st + length (filter (\<lambda>r. 2 \<le> length r \<or> whole) (runs globalIndices cs))"
    by (simp only: constraintRuns_counter)
  have signature: "componentConstraints st geo cmp = Inr constraints \<longrightarrow>
      (\<forall>c\<in>set constraints. sorted (globalIndices c))"
    using componentConstraints_signature by blast
  show ?thesis
    unfolding Let_def cs_def [symmetric]
    using perm runs_concat [of globalIndices cs] same increasing loop counter
      componentsLoop_runs [OF srt, of geo d comps st] signature constr_less_meaning [of a b]
    by blast
qed

theorem interface_averages_runs_witness:
  "errorOf (componentConstraints ex_state ex_geo (allComponents ex_geo ! 0)) = None
   \<and> map (map constraintTuple) (runs globalIndices (sort_by constr_less
         (projr (componentConstraints ex_state ex_geo (allComponents ex_geo ! 0))))) =
       [[([2, 3], 0), ([2, 3], 1)]]
   \<and> map (map constraintTuple) (runs globalIndices (sort_by constr_less
         (projr (componentConstraints ex_state ex_geo (allComponents ex_geo ! 1))))) =
       [[([0, 1], 1)]]
   \<and> m_nPrimalDofs (projr (interfaceAveragesAsPrimals (sort_by constr_less) ex_geo 1 ex_state)) = 1
   \<and> m_primalDofIndices (projr (interfaceAveragesAsPrimals (sort_by constr_less) ex_geo 1 ex_state)) =
       [[0], [0]]
   \<and> m_nPrimalDofs (projr (interfaceAveragesAsPrimals (sort_by constr_less) ex_geo 2 ex_state)) = 2
   \<and> m_primalDofIndices (projr (interfaceAveragesAsPrimals (sort_by constr_less) ex_geo 2 ex_state)) =
       [[0], [1]]
   \<and> constraintLoop False None (sort_by constr_less
         (projr (componentConstraints ex_state ex_geo (allComponents ex_geo ! 0)))) ex_state =
       constraintRuns False (runs globalIndices (sort_by constr_less
         (projr (componentConstraints ex_state ex_geo (allComponents ex_geo ! 0))))) ex_state"
proof -
  have seen: "errorOf (componentConstraints ex_state ex_geo (allComponents ex_geo ! 0)) = None
   \<and> map (map constraintTuple) (runs globalIndices (sort_by constr_less
         (projr (componentConstraints ex_state ex_geo (allComponents ex_geo ! 0))))) =
       [[([2, 3], 0), ([2, 3], 1)]]
   \<and> map (map constraintTuple) (runs globalIndices (sort_by constr_less
         (projr (componentConstraints ex_state ex_geo (allComponents ex_geo ! 1))))) =
       [[([0, 1], 1)]]
   \<and> m_nPrimalDofs (projr (interfaceAveragesAsPrimals (sort_by constr_less) ex_geo 1 ex_state)) = 1
   \<and> m_primalDofIndices (projr (interfaceAveragesAsPrimals (sort_by constr_less) ex_geo 1 ex_state)) =
       [[0], [0]]
   \<and> m_nPrimalDofs (projr (interfaceAveragesAsPrimals (sort_by constr_less) ex_geo 2 ex_state)) = 2
   \<and> m_primalDofIndices (projr (interfaceAveragesAsPrimals (sort_by constr_less) ex_geo 2 ex_state)) =
       [[0], [1]]"
    by code_simp
  note inst = interface_averages_runs [OF std_sort_sort_by [OF strict_weak_constr_less],
      where constraints = "projr (componentConstraints ex_state ex_geo (allComponents ex_geo ! 0))"
        and whole = False and st = ex_state]
  from inst have "constraintLoop False None (sort_by constr_less
         (projr (componentConstraints ex_state ex_geo (allComponents ex_geo ! 0)))) ex_state =
       constraintRuns False (runs globalIndices (sort_by constr_less
         (projr (componentConstraints ex_state ex_geo (allComponents ex_geo ! 0))))) ex_state"
    unfolding Let_def by blast
  with seen show ?thesis by blast
qed

subsection \<open>Properties of the local mappers\<close>

lemma length_fold_eliminate:
  "length (fold (\<lambda>i lm. if P i then eliminateDof i lm else lm) is lm) = length lm"
  by (induction "is" arbitrary: lm) (simp_all add: eliminateDof_def)

lemma nth_fold_eliminate:
  "j < length lm \<Longrightarrow>
   fold (\<lambda>i lm. if P i then eliminateDof i lm else lm) is lm ! j = (lm ! j \<or> (j \<in> set is \<and> P j))"
proof (induction "is" arbitrary: lm)
  case Nil
  show ?case by simp
next
  case (Cons a "is")
  define lm' where "lm' = (if P a then eliminateDof a lm else lm)"
  have len: "j < length lm'" using Cons.prems by (simp add: lm'_def eliminateDof_def)
  have here: "lm' ! j = (lm ! j \<or> (j = a \<and> P a))"
    using Cons.prems by (cases "j = a") (simp_all add: lm'_def eliminateDof_def)
  have "fold (\<lambda>i lm. if P i then eliminateDof i lm else lm) (a # is) lm ! j =
      fold (\<lambda>i lm. if P i then eliminateDof i lm else lm) is lm' ! j"
    by (simp add: lm'_def)
  also have "\<dots> = (lm' ! j \<or> (j \<in> set is \<and> P j))" using len by (rule Cons.IH)
  also have "\<dots> = (lm ! j \<or> (j \<in> set (a # is) \<and> P j))" using here by auto
  finally show ?case .
qed

lemma length_localMapperOf: "length (localMapperOf dm k) = patchSize dm k"
  by (simp add: localMapperOf_def Let_def length_fold_eliminate setIdentity_def)

lemma nth_localMapperOf:
  "i < patchSize dm k \<Longrightarrow> localMapperOf dm k ! i = is_boundary_index dm (index dm i k)"
  by (simp add: localMapperOf_def Let_def nth_fold_eliminate setIdentity_def)

lemma l_freeSize_le: "l_freeSize lm \<le> length lm"
  by (simp add: l_freeSize_def)

lemma l_sizes: "l_freeSize lm + l_boundarySize lm = length lm"
  unfolding l_freeSize_def l_boundarySize_def
  using sum_length_filter_compl [of Not lm] by (simp add: id_def)

lemma filter_take_less:
  "i < length xs \<Longrightarrow> P (xs ! i) \<Longrightarrow> length (filter P (take i xs)) < length (filter P xs)"
proof -
  assume i: "i < length xs" and p: "P (xs ! i)"
  have "xs = take i xs @ xs ! i # drop (Suc i) xs" using i by (rule id_take_nth_drop)
  then have "filter P xs = filter P (take i xs) @ filter P (xs ! i # drop (Suc i) xs)"
    by (metis filter_append)
  with p show ?thesis by simp
qed

lemma l_index_free_bound:
  "i < length lm \<Longrightarrow> \<not> lm ! i \<Longrightarrow> l_index lm i < l_freeSize lm"
  using filter_take_less [of i lm Not] by (simp add: l_index_def l_freeSize_def)

lemma l_index_elim_bound:
  "i < length lm \<Longrightarrow> lm ! i \<Longrightarrow>
   l_freeSize lm \<le> l_index lm i \<and> l_index lm i < l_freeSize lm + l_boundarySize lm"
  using filter_take_less [of i lm id] by (simp add: l_index_def l_boundarySize_def)

lemma filter_take_mono:
  "i < j \<Longrightarrow> j \<le> length xs \<Longrightarrow> P (xs ! i) \<Longrightarrow>
   length (filter P (take i xs)) < length (filter P (take j xs))"
proof -
  assume ij: "i < j" and j: "j \<le> length xs" and p: "P (xs ! i)"
  have "i < length (take j xs)" using ij j by simp
  moreover have "P (take j xs ! i)" using ij p by simp
  ultimately have "length (filter P (take i (take j xs))) < length (filter P (take j xs))"
    by (rule filter_take_less)
  moreover have "take i (take j xs) = take i xs" using ij by (simp add: min_def)
  ultimately show ?thesis by simp
qed

lemma l_index_inj:
  assumes i: "i < length lm" and j: "j < length lm" and eq: "l_index lm i = l_index lm j"
  shows "i = j"
proof (rule ccontr)
  assume ne: "i \<noteq> j"
  have flag: "lm ! i = lm ! j"
  proof (rule ccontr)
    assume "lm ! i \<noteq> lm ! j"
    then consider "lm ! i" "\<not> lm ! j" | "\<not> lm ! i" "lm ! j" by blast
    then show False
    proof cases
      case 1
      with i j eq l_index_elim_bound [of i lm] l_index_free_bound [of j lm] show False by simp
    next
      case 2
      with i j eq l_index_elim_bound [of j lm] l_index_free_bound [of i lm] show False by simp
    qed
  qed
  have less: "l_index lm a < l_index lm b" if ab: "a < b" and b: "b < length lm"
    and same: "lm ! a = lm ! b" for a b
  proof (cases "lm ! a")
    case True
    with same ab b filter_take_mono [of a b lm id] show ?thesis by (simp add: l_index_def)
  next
    case False
    with same ab b filter_take_mono [of a b lm Not] show ?thesis by (simp add: l_index_def)
  qed
  from ne consider "i < j" | "j < i" by linarith
  then show False
  proof cases
    case 1
    from less [OF 1 j flag] eq show False by simp
  next
    case 2
    from less [OF 2 i flag [symmetric]] eq show False by simp
  qed
qed

subsection \<open>What init establishes\<close>


lemma and_one_or_two: "((s :: 32 word) OR 2) AND 1 = s AND 1"
  by (simp add: bit.conj_disj_distrib2)

lemma initPatches_result:
  "initPatches fp ks st = Inr st' \<Longrightarrow>
   m_dofMapperGlobal st' = m_dofMapperGlobal st \<and> m_multiBasis st' = m_multiBasis st
   \<and> m_status st' AND 1 = m_status st AND 1
   \<and> length (m_dofMapperLocal st') = length (m_dofMapperLocal st)
   \<and> (\<forall>k < length (m_dofMapperLocal st). m_dofMapperLocal st' ! k =
        (if k \<in> set ks then localMapperOf (m_dofMapperGlobal st) k else m_dofMapperLocal st ! k))
   \<and> (\<forall>k \<in> set ks. mb_size (m_multiBasis st) ! k \<le> patchSize (m_dofMapperGlobal st) k)
   \<and> m_nPrimalDofs st' = m_nPrimalDofs st"
proof (induction ks arbitrary: st)
  case Nil
  then show ?case by simp
next
  case (Cons k ks)
  let ?dm = "m_dofMapperGlobal st"
  define st1 where "st1 = (if patchSize ?dm k > mb_size (m_multiBasis st) ! k
              then st\<lparr>m_status := m_status st OR 2\<rparr> else st)"
  define st2 where "st2 = st1\<lparr>m_dofMapperLocal := (m_dofMapperLocal st1)[k := localMapperOf ?dm k],
                    m_fixedPart := (m_fixedPart st1)[k := fixedPartOf ?dm (localMapperOf ?dm k) fp k]\<rparr>"
  from Cons.prems have size: "mb_size (m_multiBasis st) ! k \<le> patchSize ?dm k"
    and rec: "initPatches fp ks st2 = Inr st'"
    by (auto simp: Let_def st1_def st2_def split: if_splits)
  note IH = Cons.IH [OF rec]
  have fields: "m_dofMapperGlobal st2 = ?dm" "m_multiBasis st2 = m_multiBasis st"
    "m_status st2 AND 1 = m_status st AND 1" "m_nPrimalDofs st2 = m_nPrimalDofs st"
    "m_dofMapperLocal st2 = (m_dofMapperLocal st)[k := localMapperOf ?dm k]"
    by (simp_all add: and_one_or_two st1_def st2_def)
  have len: "length (m_dofMapperLocal st2) = length (m_dofMapperLocal st)"
    by (simp add: fields)
  have locals: "m_dofMapperLocal st' ! j =
      (if j \<in> set (k # ks) then localMapperOf ?dm j else m_dofMapperLocal st ! j)"
    if j: "j < length (m_dofMapperLocal st)" for j
  proof -
    from j have "j < length (m_dofMapperLocal st2)" by (simp add: len)
    with IH have "m_dofMapperLocal st' ! j =
        (if j \<in> set ks then localMapperOf (m_dofMapperGlobal st2) j else m_dofMapperLocal st2 ! j)"
      by blast
    with j show ?thesis by (auto simp: fields nth_list_update)
  qed
  from IH have "m_dofMapperGlobal st' = ?dm" "m_multiBasis st' = m_multiBasis st"
    "m_status st' AND 1 = m_status st AND 1" "m_nPrimalDofs st' = m_nPrimalDofs st"
    "length (m_dofMapperLocal st') = length (m_dofMapperLocal st)"
    "\<forall>j \<in> set ks. mb_size (m_multiBasis st) ! j \<le> patchSize ?dm j"
    by (simp_all add: fields len)
  with size locals show ?case by simp
qed

lemma artificialInfo_only:
  "(case artificialOwners st1 ps dofs0 of
      Inl e \<Rightarrow> Inl e
    | Inr dofs \<Rightarrow> (case artificialInfo st1 dofs qs info0 of
         Inl e \<Rightarrow> Inl e | Inr info \<Rightarrow> Inr (st1\<lparr>m_artificialDofInfo := info\<rparr>))) = Inr st'
   \<Longrightarrow> \<exists>info. st' = st1\<lparr>m_artificialDofInfo := info\<rparr>"
  by (auto split: sum.splits)

lemma init_initialized:
  assumes "init mb dm fp st = Inr st'"
  shows "initialized st' \<and> m_dofMapperGlobal st' = dm \<and> m_multiBasis st' = mb
         \<and> m_nPrimalDofs st' = 0"
proof -
  let ?n = "numPatches dm"
  let ?st0 = "st\<lparr>m_multiBasis := mb, m_dofMapperGlobal := dm,
       m_dofMapperLocal := replicate ?n [], m_fixedPart := replicate ?n [],
       m_jumpMatrices := [], m_nPrimalDofs := 0, m_primalConstraints := replicate ?n [],
       m_primalDofIndices := replicate ?n [], m_status := 1\<rparr>"
  from assms have comp: "componentsSize dm = 1" and n: "?n = nBases mb"
    by (auto simp: init_def split: if_splits)
  from assms comp n obtain st1 where
    patches: "initPatches fp [0 ..< ?n] ?st0 = Inr st1"
    and final: "\<exists>info. st' = st1 \<or> st' = st1\<lparr>m_artificialDofInfo := info\<rparr>"
    by (auto simp: init_def Let_def split: if_splits sum.splits)
  note r = initPatches_result [OF patches]
  have "m_dofMapperLocal st1 = map (localMapperOf dm) [0 ..< ?n]"
  proof (rule nth_equalityI)
    show "length (m_dofMapperLocal st1) = length (map (localMapperOf dm) [0 ..< ?n])"
      using r by simp
  next
    fix k assume "k < length (m_dofMapperLocal st1)"
    with r have k: "k < ?n" by simp
    with r have "m_dofMapperLocal st1 ! k = localMapperOf dm k" by simp
    with k show "m_dofMapperLocal st1 ! k = map (localMapperOf dm) [0 ..< ?n] ! k" by simp
  qed
  moreover from r have "m_status st1 AND 1 \<noteq> 0" by simp
  moreover from r have "list_all (\<lambda>k. mb_size mb ! k \<le> patchSize dm k) [0 ..< ?n]"
    by (simp add: list_all_iff)
  ultimately have "initialized st1 \<and> m_dofMapperGlobal st1 = dm \<and> m_multiBasis st1 = mb
      \<and> m_nPrimalDofs st1 = 0"
    using r n by (simp add: initialized_def)
  with final show ?thesis by (auto simp: initialized_def)
qed

subsection \<open>The coupling groups\<close>

lemma fold_nested:
  "fold (\<lambda>k. fold (g k) (js k)) ks C =
   fold (\<lambda>p. g (fst p) (snd p)) (concat (map (\<lambda>k. map (Pair k) (js k)) ks)) C"
proof (induction ks arbitrary: C)
  case Nil
  show ?case by simp
next
  case (Cons k ks)
  have "fold (g k) (js k) C = fold (\<lambda>p. g (fst p) (snd p)) (map (Pair k) (js k)) C"
    by (simp add: fold_map comp_def)
  then show ?case by (simp add: Cons.IH)
qed

lemma fold_push_groups:
  fixes C :: "'b list list"
  defines "step \<equiv> \<lambda>P f h. (\<lambda>p C. if P p then C[f p := C ! f p @ [h p]] else C)"
  shows "length (fold (step P f h) ps C) = length C
     \<and> (\<forall>c < length C. fold (step P f h) ps C ! c = C ! c @ map h (filter (\<lambda>p. P p \<and> f p = c) ps))"
proof (induction ps arbitrary: C)
  case Nil
  show ?case by simp
next
  case (Cons p ps)
  define C' where "C' = step P f h p C"
  have len: "length C' = length C" by (simp add: C'_def step_def)
  have here: "C' ! c = C ! c @ (if P p \<and> f p = c then [h p] else [])" if "c < length C" for c
    using that by (auto simp: C'_def step_def nth_list_update)
  have "fold (step P f h) (p # ps) C = fold (step P f h) ps C'" by (simp add: C'_def)
  with Cons.IH [of C'] len here show ?case by auto
qed

lemma findCoupling_eq:
  "findCoupling st = map (occurrences st) [0 ..< coupledSize (m_dofMapperGlobal st)]"
proof -
  let ?dm = "m_dofMapperGlobal st"
  let ?P = "\<lambda>p. is_coupled_index ?dm (index ?dm (snd p) (fst p))"
  let ?f = "\<lambda>p. cindex ?dm (snd p) (fst p)"
  let ?h = "\<lambda>p. (fst p, l_index (m_dofMapperLocal st ! fst p) (snd p))"
  let ?step = "\<lambda>p C. if ?P p then C[?f p := C ! ?f p @ [?h p]] else C"
  have "findCoupling st = fold ?step (allDofs ?dm) (replicate (coupledSize ?dm) [])"
    unfolding findCoupling_def Let_def allDofs_def
    by (rule fold_nested [of "\<lambda>k i C. if is_coupled_index ?dm (index ?dm i k)
          then C[cindex ?dm i k := C ! cindex ?dm i k @ [(k, l_index (m_dofMapperLocal st ! k) i)]]
          else C" "\<lambda>k. [0 ..< patchSize ?dm k]"])
  moreover note fold_push_groups [of ?P ?f ?h "allDofs ?dm" "replicate (coupledSize ?dm) []"]
  ultimately have len: "length (findCoupling st) = coupledSize ?dm"
    and nth: "\<forall>c < coupledSize ?dm. findCoupling st ! c =
        map ?h (filter (\<lambda>p. ?P p \<and> ?f p = c) (allDofs ?dm))"
    by simp_all
  show ?thesis
  proof (rule nth_equalityI)
    show "length (findCoupling st) = length (map (occurrences st) [0 ..< coupledSize ?dm])"
      using len by simp
  next
    fix c assume "c < length (findCoupling st)"
    with len have c: "c < coupledSize ?dm" by simp
    with nth have "findCoupling st ! c = map ?h (filter (\<lambda>p. ?P p \<and> ?f p = c) (allDofs ?dm))"
      by simp
    also have "\<dots> = occurrences st c"
      by (simp add: occurrences_def case_prod_unfold)
    finally show "findCoupling st ! c = map (occurrences st) [0 ..< coupledSize ?dm] ! c"
      using c by simp
  qed
qed

lemma fold_erase_groups:
  fixes C :: "'b list list"
  defines "step \<equiv> \<lambda>P f. (\<lambda>p C. if P p then C[f p := []] else C)"
  shows "length (fold (step P f) ps C) = length C
     \<and> (\<forall>c < length C. fold (step P f) ps C ! c =
           (if \<exists>p \<in> set ps. P p \<and> f p = c then [] else C ! c))"
proof (induction ps arbitrary: C)
  case Nil
  show ?case by simp
next
  case (Cons p ps)
  define C' where "C' = step P f p C"
  have len: "length C' = length C" by (simp add: C'_def step_def)
  have here: "C' ! c = (if P p \<and> f p = c then [] else C ! c)" if "c < length C" for c
    using that by (auto simp: C'_def step_def nth_list_update)
  have "fold (step P f) (p # ps) C = fold (step P f) ps C'" by (simp add: C'_def)
  with Cons.IH [of C'] len here show ?case by auto
qed

lemma eraseCorners_eq:
  "eraseCorners st (map G [0 ..< n]) =
   map (\<lambda>c. if cornerCoupled st c then [] else G c) [0 ..< n]"
proof -
  let ?dm = "m_dofMapperGlobal st"
  let ?mb = "m_multiBasis st"
  let ?P = "\<lambda>p. is_coupled_index ?dm (index ?dm (functionAtCorner ?mb (fst p) (snd p)) (fst p))"
  let ?f = "\<lambda>p. cindex ?dm (functionAtCorner ?mb (fst p) (snd p)) (fst p)"
  let ?step = "\<lambda>p C. if ?P p then C[?f p := []] else C"
  define ps where
    "ps = concat (map (\<lambda>k. map (Pair k) (boxCorners (mb_dim ?mb))) [0 ..< numPatches ?dm])"
  define C where "C = map G [0 ..< n]"
  have eq: "eraseCorners st C = fold ?step ps C"
    unfolding eraseCorners_def Let_def ps_def
    by (rule fold_nested [of "\<lambda>k it C.
          if is_coupled_index ?dm (index ?dm (functionAtCorner ?mb k it) k)
          then C[cindex ?dm (functionAtCorner ?mb k it) k := []] else C"
          "\<lambda>k. boxCorners (mb_dim ?mb)"])
  note fe = fold_erase_groups [of ?P ?f ps C, folded eq]
  have lenC: "length C = n" by (simp add: C_def)
  from fe lenC have len: "length (eraseCorners st C) = n" by simp
  have corner: "(\<exists>p \<in> set ps. ?P p \<and> ?f p = c) = cornerCoupled st c" for c
    by (auto simp: ps_def cornerCoupled_def list_ex_iff)
  have nth: "eraseCorners st C ! c = (if cornerCoupled st c then [] else G c)" if c: "c < n" for c
  proof -
    from fe c lenC have "eraseCorners st C ! c =
        (if \<exists>p \<in> set ps. ?P p \<and> ?f p = c then [] else C ! c)" by blast
    with c show ?thesis by (simp only: corner) (simp add: C_def)
  qed
  have "eraseCorners st C = map (\<lambda>c. if cornerCoupled st c then [] else G c) [0 ..< n]"
  proof (rule nth_equalityI)
    show "length (eraseCorners st C) =
        length (map (\<lambda>c. if cornerCoupled st c then [] else G c) [0 ..< n])"
      using len by simp
  next
    fix c assume "c < length (eraseCorners st C)"
    with len have c: "c < n" by simp
    with nth [OF c] show "eraseCorners st C ! c =
        map (\<lambda>c. if cornerCoupled st c then [] else G c) [0 ..< n] ! c"
      by simp
  qed
  then show ?thesis by (simp only: C_def)
qed

lemma coupling_eq:
  "(if excludeCorners then eraseCorners st (findCoupling st) else findCoupling st) =
   couplingGroups excludeCorners st"
  by (simp add: findCoupling_eq eraseCorners_eq couplingGroups_def)

subsection \<open>The entries of the jump matrices\<close>

lemma addJump_addRow: "addJump g js acc = addRow (g ! fst js, g ! snd js) acc"
  by (simp add: addJump_def addRow_def Let_def)

lemma fold_groups_rows:
  "fold (\<lambda>g acc. fold (addJump g) (jumpPairs fr (int (length g))) acc) coupling acc =
   fold addRow (jumpRows fr coupling) acc"
proof (induction coupling arbitrary: acc)
  case Nil
  show ?case by (simp add: jumpRows_def)
next
  case (Cons g coupling)
  have "fold (addJump g) ps acc = fold addRow (map (\<lambda>js. (g ! fst js, g ! snd js)) ps) acc" for ps
    by (simp add: fold_map comp_def addJump_addRow [abs_def])
  then show ?case
    using Cons.IH by (simp add: jumpRows_def)
qed

lemma jumpEntries_rows:
  "jumpEntries fr coupling nP = fold addRow (jumpRows fr coupling) (0, replicate nP [])"
  by (simp add: jumpEntries_def fold_groups_rows)

lemma addRow_step:
  "fst (addRow row (m, se)) = m + 1 \<and> length (snd (addRow row (m, se))) = length se
   \<and> (\<forall>k < length se. snd (addRow row (m, se)) ! k = se ! k @ rowContribution row k m)"
  by (auto simp: addRow_def Let_def rowContribution_def nth_list_update)

lemma fold_addRow_entries:
  "fst (fold addRow rows (m, se)) = m + length rows
   \<and> length (snd (fold addRow rows (m, se))) = length se
   \<and> (\<forall>k < length se.
        filter (\<lambda>e. fst e = r) (snd (fold addRow rows (m, se)) ! k) =
        filter (\<lambda>e. fst e = r) (se ! k)
        @ (if m \<le> r \<and> r < m + length rows then rowContribution (rows ! (r - m)) k r else []))"
proof (induction rows arbitrary: m se)
  case Nil
  show ?case by auto
next
  case (Cons row rows)
  obtain m' se' where step: "addRow row (m, se) = (m', se')" by (cases "addRow row (m, se)")
  with addRow_step [of row m se] have m': "m' = m + 1" and len: "length se' = length se"
    and nth: "\<forall>k < length se. se' ! k = se ! k @ rowContribution row k m" by simp_all
  have here: "filter (\<lambda>e. fst e = r) (rowContribution row k m) =
      (if r = m then rowContribution row k r else [])" for k
    by (auto simp: rowContribution_def)
  note IH = Cons.IH [of m' se']
  have entries: "filter (\<lambda>e. fst e = r) (snd (fold addRow (row # rows) (m, se)) ! k) =
        filter (\<lambda>e. fst e = r) (se ! k)
        @ (if m \<le> r \<and> r < m + length (row # rows)
           then rowContribution ((row # rows) ! (r - m)) k r else [])"
    if k: "k < length se" for k
  proof -
    from k len have k': "k < length se'" by simp
    have "filter (\<lambda>e. fst e = r) (snd (fold addRow (row # rows) (m, se)) ! k) =
        filter (\<lambda>e. fst e = r) (snd (fold addRow rows (m', se')) ! k)"
      by (simp add: step)
    also have "\<dots> = filter (\<lambda>e. fst e = r) (se' ! k)
        @ (if m' \<le> r \<and> r < m' + length rows then rowContribution (rows ! (r - m')) k r else [])"
      using IH k' by blast
    also have "filter (\<lambda>e. fst e = r) (se' ! k) =
        filter (\<lambda>e. fst e = r) (se ! k) @ (if r = m then rowContribution row k r else [])"
      using nth k here by simp
    finally show ?thesis
      by (cases "r = m") (auto simp: m' nth_Cons')
  qed
  from IH entries show ?case by (simp add: step m' len)
qed

lemma mset_concat_append:
  "mset (concat (map (\<lambda>k. A k @ B k) ks)) = mset (concat (map A ks)) + mset (concat (map B ks))"
  by (induction ks) simp_all

lemma mset_concat_single:
  "mset (concat (map (\<lambda>k. if a = k then [x] else []) [0 ..< n])) = (if a < n then {#x#} else {#})"
  by (induction n) auto

lemma set_jumpPairs: "(j1, j2) \<in> set (jumpPairs fr n) \<Longrightarrow> j1 < j2 \<and> int j2 < n"
  by (auto simp: jumpPairs_def Let_def split: if_splits)

lemma jumpRows_nth:
  "r < length (jumpRows fr coupling) \<Longrightarrow>
   \<exists>g \<in> set coupling. \<exists>j1 j2. j1 < j2 \<and> j2 < length g \<and> jumpRows fr coupling ! r = (g ! j1, g ! j2)"
proof -
  assume "r < length (jumpRows fr coupling)"
  then have "jumpRows fr coupling ! r \<in> set (jumpRows fr coupling)" by (rule nth_mem)
  then obtain g js where g: "g \<in> set coupling" and js: "js \<in> set (jumpPairs fr (int (length g)))"
    and row: "jumpRows fr coupling ! r = (g ! fst js, g ! snd js)"
    by (auto simp: jumpRows_def)
  from js set_jumpPairs [of "fst js" "snd js" fr "int (length g)"]
  have "fst js < snd js \<and> snd js < length g" by simp
  with g row show ?thesis by blast
qed

lemma length_jumpRows: "length (jumpRows fr coupling) = sum_list (map (rowsOfGroup fr) coupling)"
  by (simp add: jumpRows_def length_concat comp_def rowsOfGroup_def [abs_def])

subsection \<open>The groups of an initialized mapper\<close>

lemma set_allDofs: "(k, i) \<in> set (allDofs dm) \<longleftrightarrow> k < numPatches dm \<and> i < patchSize dm k"
  by (auto simp: allDofs_def image_iff)

lemma distinct_pairs:
  "distinct ks \<Longrightarrow> (\<And>k. distinct (js k)) \<Longrightarrow>
   distinct (concat (map (\<lambda>k. map (Pair k) (js k)) ks))"
proof (induction ks)
  case Nil
  show ?case by simp
next
  case (Cons k ks)
  have "distinct (map (Pair k) (js k))"
    using Cons.prems(2) by (simp add: distinct_map inj_on_def)
  moreover have "distinct (concat (map (\<lambda>k. map (Pair k) (js k)) ks))"
    using Cons by simp
  moreover have "set (map (Pair k) (js k)) \<inter> set (concat (map (\<lambda>k. map (Pair k) (js k)) ks)) = {}"
    using Cons.prems(1) by auto
  ultimately show ?case by simp
qed

lemma distinct_allDofs: "distinct (allDofs dm)"
  unfolding allDofs_def by (rule distinct_pairs) simp_all

lemma dofMapper_ok_dof:
  assumes "dofMapper_ok dm" and "k < numPatches dm" and "i < patchSize dm k"
  shows "is_boundary_index dm (index dm i k) \<longleftrightarrow> \<not> is_free_index dm (index dm i k)"
    and "is_free_index dm (index dm i k) \<longleftrightarrow> index dm i k < freeSize dm"
    and "is_coupled_index dm (index dm i k) \<Longrightarrow>
           is_free_index dm (index dm i k) \<and> cindex dm i k < coupledSize dm"
proof -
  from assms(2,3) have "(k, i) \<in> set (allDofs dm)" by (simp add: set_allDofs)
  with assms(1) have all: "(is_boundary_index dm (index dm i k) \<longleftrightarrow> \<not> is_free_index dm (index dm i k))
         \<and> (is_free_index dm (index dm i k) \<longleftrightarrow> index dm i k < freeSize dm)
         \<and> (is_coupled_index dm (index dm i k) \<longrightarrow>
              is_free_index dm (index dm i k) \<and> cindex dm i k < coupledSize dm)"
    unfolding dofMapper_ok_def list_all_iff by blast
  from all show "is_boundary_index dm (index dm i k) \<longleftrightarrow> \<not> is_free_index dm (index dm i k)"
    by blast
  from all show "is_free_index dm (index dm i k) \<longleftrightarrow> index dm i k < freeSize dm" by blast
  from all show "is_coupled_index dm (index dm i k) \<Longrightarrow>
           is_free_index dm (index dm i k) \<and> cindex dm i k < coupledSize dm" by blast
qed

lemma initialized_local:
  "initialized st \<Longrightarrow> k < numPatches (m_dofMapperGlobal st) \<Longrightarrow>
   m_dofMapperLocal st ! k = localMapperOf (m_dofMapperGlobal st) k"
  by (simp add: initialized_def)

lemma occurrences_props:
  assumes init: "initialized st" and ok: "dofMapper_ok (m_dofMapperGlobal st)"
  shows "distinct (occurrences st c)"
    and "\<And>p l. (p, l) \<in> set (occurrences st c) \<Longrightarrow>
           p < numPatches (m_dofMapperGlobal st) \<and> l < l_freeSize (m_dofMapperLocal st ! p)"
proof -
  let ?dm = "m_dofMapperGlobal st"
  let ?h = "\<lambda>(k, i). (k, l_index (m_dofMapperLocal st ! k) i)"
  let ?sel = "filter (\<lambda>(k, i). is_coupled_index ?dm (index ?dm i k) \<and> cindex ?dm i k = c) (allDofs ?dm)"
  have inj: "inj_on ?h (set ?sel)"
  proof (rule inj_onI)
    fix x y assume x: "x \<in> set ?sel" and y: "y \<in> set ?sel" and eq: "?h x = ?h y"
    obtain k i where xk: "x = (k, i)" by (cases x)
    obtain k' i' where yk: "y = (k', i')" by (cases y)
    from x xk have ki: "k < numPatches ?dm" "i < patchSize ?dm k" by (simp_all add: set_allDofs)
    from y yk have ki': "k' < numPatches ?dm" "i' < patchSize ?dm k'" by (simp_all add: set_allDofs)
    from eq xk yk have kk: "k = k'"
      and l: "l_index (m_dofMapperLocal st ! k) i = l_index (m_dofMapperLocal st ! k) i'" by auto
    have len: "length (m_dofMapperLocal st ! k) = patchSize ?dm k"
      using init ki by (simp add: initialized_local length_localMapperOf)
    from ki ki' kk len have "i < length (m_dofMapperLocal st ! k)" "i' < length (m_dofMapperLocal st ! k)"
      by simp_all
    from this l have "i = i'" by (rule l_index_inj)
    with kk xk yk show "x = y" by simp
  qed
  have "distinct ?sel" using distinct_allDofs by (rule distinct_filter)
  with inj show "distinct (occurrences st c)"
    unfolding occurrences_def by (simp add: distinct_map)
  fix p l assume "(p, l) \<in> set (occurrences st c)"
  then obtain k i where ki: "(k, i) \<in> set (allDofs ?dm)"
    and cpl: "is_coupled_index ?dm (index ?dm i k)"
    and pl: "p = k" "l = l_index (m_dofMapperLocal st ! k) i"
    by (auto simp: occurrences_def)
  from ki have k: "k < numPatches ?dm" and i: "i < patchSize ?dm k" by (simp_all add: set_allDofs)
  from dofMapper_ok_dof [OF ok k i] cpl have "\<not> is_boundary_index ?dm (index ?dm i k)" by blast
  with i have flag: "\<not> localMapperOf ?dm k ! i" by (simp add: nth_localMapperOf)
  have "i < length (localMapperOf ?dm k)" using i by (simp add: length_localMapperOf)
  from this flag have "l_index (localMapperOf ?dm k) i < l_freeSize (localMapperOf ?dm k)"
    by (rule l_index_free_bound)
  with init k pl show "p < numPatches ?dm \<and> l < l_freeSize (m_dofMapperLocal st ! p)"
    by (simp add: initialized_local)
qed

lemma couplingGroups_props:
  assumes init: "initialized st" and ok: "dofMapper_ok (m_dofMapperGlobal st)"
    and g: "g \<in> set (couplingGroups ec st)"
  shows "distinct g"
    and "\<And>p l. (p, l) \<in> set g \<Longrightarrow>
           p < numPatches (m_dofMapperGlobal st) \<and> l < l_freeSize (m_dofMapperLocal st ! p)"
proof -
  from g obtain c where "g = [] \<or> g = occurrences st c"
    by (auto simp: couplingGroups_def split: if_splits)
  then show "distinct g" using occurrences_props(1) [OF init ok] by auto
  fix p l assume "(p, l) \<in> set g"
  with \<open>g = [] \<or> g = occurrences st c\<close> have "(p, l) \<in> set (occurrences st c)" by auto
  then show "p < numPatches (m_dofMapperGlobal st) \<and> l < l_freeSize (m_dofMapperLocal st ! p)"
    by (rule occurrences_props(2) [OF init ok])
qed

lemma couplingGroups_status [simp]:
  "couplingGroups ec (st\<lparr>m_status := s\<rparr>) = couplingGroups ec st"
  by (simp add: couplingGroups_def occurrences_def cornerCoupled_def)

lemma computeJumpMatrices_eq:
  "computeJumpMatrices fr ec st =
     (if m_status st AND 1 = 0 then Inl SequencingError
      else if \<not> m_status st AND 4 = 0 then Inl SequencingError
      else if \<not> (\<forall>g\<in>set (couplingGroups ec st). 1 < length g \<or> ec)
      then Inl InternalInvariantViolation
      else if \<not> int (length (jumpRows fr (couplingGroups ec st))) =
                sum_list (map (theoreticalCount fr) (couplingGroups ec st))
      then Inl InternalInvariantViolation
      else Inr (st\<lparr>m_status := m_status st OR 4,
                   m_jumpMatrices :=
                     map (\<lambda>i. \<lparr>jm_rows = int (length (jumpRows fr (couplingGroups ec st))),
                                jm_cols = l_freeSize (m_dofMapperLocal st ! i),
                                jm_entries =
                                  snd (fold addRow (jumpRows fr (couplingGroups ec st))
                                         (0, replicate (numPatches (m_dofMapperGlobal st)) [])) ! i\<rparr>)
                       [0 ..< numPatches (m_dofMapperGlobal st)]\<rparr>))"
proof -
  let ?st1 = "st\<lparr>m_status := m_status st OR 4\<rparr>"
  define G where "G = couplingGroups ec st"
  define rows where "rows = jumpRows fr G"
  have groups: "(if ec then eraseCorners ?st1 (findCoupling ?st1) else findCoupling ?st1) = G"
    using coupling_eq [of ec ?st1] by (simp add: G_def)
  have count: "countLagrangeMult fr ec G 0 =
      (if \<forall>g\<in>set G. 1 < length g \<or> ec
       then Inr (sum_list (map (theoreticalCount fr) G)) else Inl InternalInvariantViolation)"
    by (simp add: countLagrangeMult_eq)
  have entries: "jumpEntries fr G n = (length rows, snd (fold addRow rows (0, replicate n [])))" for n
    using fold_addRow_entries [of rows 0 "replicate n []" 0]
    by (simp add: jumpEntries_rows prod_eq_iff rows_def)
  have "computeJumpMatrices fr ec st =
     (if m_status st AND 1 = 0 then Inl SequencingError
      else if \<not> m_status st AND 4 = 0 then Inl SequencingError
      else if \<not> (\<forall>g\<in>set G. 1 < length g \<or> ec) then Inl InternalInvariantViolation
      else if \<not> int (length rows) = sum_list (map (theoreticalCount fr) G)
      then Inl InternalInvariantViolation
      else Inr (st\<lparr>m_status := m_status st OR 4,
                   m_jumpMatrices :=
                     map (\<lambda>i. \<lparr>jm_rows = int (length rows),
                                jm_cols = l_freeSize (m_dofMapperLocal st ! i),
                                jm_entries =
                                  snd (fold addRow rows
                                         (0, replicate (numPatches (m_dofMapperGlobal st)) [])) ! i\<rparr>)
                       [0 ..< numPatches (m_dofMapperGlobal st)]\<rparr>))"
    unfolding computeJumpMatrices_def Let_def groups count
    by (simp add: entries)
  then show ?thesis by (simp only: G_def rows_def)
qed

lemma no_patches_no_rows:
  "numPatches (m_dofMapperGlobal st) = 0 \<Longrightarrow> jumpRows fr (couplingGroups ec st) = []"
  by (simp add: jumpRows_def couplingGroups_def occurrences_def allDofs_def jumpPairs_def)

lemma rowEntries_result:
  assumes row: "row = ((p1, l1), (p2, l2))" and p: "p1 < nP" "p2 < nP"
  shows "mset (concat (map (\<lambda>k. map (\<lambda>e. (k, fst (snd e), snd (snd e)))
           (rowContribution row k r)) [0 ..< nP])) = {#(p1, l1, 1), (p2, l2, - 1)#}"
proof -
  have "(\<lambda>k. map (\<lambda>e. (k, fst (snd e), snd (snd e))) (rowContribution row k r)) =
      (\<lambda>k. (if p1 = k then [(p1, l1, 1)] else []) @ (if p2 = k then [(p2, l2, - 1)] else []))"
    by (rule ext) (simp add: rowContribution_def row)
  then show ?thesis
    using p by (simp add: mset_concat_append mset_concat_single)
qed

text \<open>
  C2. After a successful \<^verbatim>\<open>computeJumpMatrices\<close> on an initialized mapper (with a global
  mapper that keeps its contract) there is one matrix per patch, each with
  \<open>numLagrangeMult\<close> rows and as many columns as the patch has local free dofs. Every row
  below \<open>numLagrangeMult\<close> has, over all matrices together, exactly two entries: a \<open>+1\<close>
  and a \<open>-1\<close>, at two different places (patch, column), each inside its matrix; so the
  entries of the row sum to 0 and lie in at most two matrices. There are no other
  entries.
\<close>

theorem jump_matrix_rows:
  assumes init: "initialized st" and ok: "dofMapper_ok (m_dofMapperGlobal st)"
    and run: "computeJumpMatrices fullyRedundant excludeCorners st = Inr st'"
  shows "length (m_jumpMatrices st') = numPatches (m_dofMapperGlobal st)
     \<and> (\<forall>k < numPatches (m_dofMapperGlobal st).
           jm_rows (m_jumpMatrices st' ! k) = numLagrangeMult st'
           \<and> jm_cols (m_jumpMatrices st' ! k) = l_freeSize (m_dofMapperLocal st ! k))
     \<and> 0 \<le> numLagrangeMult st'
     \<and> (\<forall>r. int r < numLagrangeMult st' \<longrightarrow>
           (\<exists>p1 c1 p2 c2.
              mset (rowEntries (m_jumpMatrices st') r) = {#(p1, c1, 1), (p2, c2, - 1)#}
              \<and> (p1, c1) \<noteq> (p2, c2)
              \<and> p1 < numPatches (m_dofMapperGlobal st) \<and> p2 < numPatches (m_dofMapperGlobal st)
              \<and> c1 < jm_cols (m_jumpMatrices st' ! p1) \<and> c2 < jm_cols (m_jumpMatrices st' ! p2))
           \<and> sum_list (map (\<lambda>e. snd (snd e)) (rowEntries (m_jumpMatrices st') r)) = 0)
     \<and> (\<forall>r. numLagrangeMult st' \<le> int r \<longrightarrow> rowEntries (m_jumpMatrices st') r = [])"
proof -
  let ?dm = "m_dofMapperGlobal st"
  define nP where "nP = numPatches ?dm"
  define G where "G = couplingGroups excludeCorners st"
  define rows where "rows = jumpRows fullyRedundant G"
  define se where "se = snd (fold addRow rows (0, replicate nP []))"
  define ms where "ms = map (\<lambda>i. \<lparr>jm_rows = int (length rows),
      jm_cols = l_freeSize (m_dofMapperLocal st ! i), jm_entries = se ! i\<rparr>) [0 ..< nP]"
  from run have ms: "m_jumpMatrices st' = ms"
    unfolding computeJumpMatrices_eq ms_def se_def rows_def G_def nP_def
    by (auto split: if_splits)
  have len: "length ms = nP" by (simp add: ms_def)
  have nth: "jm_rows (ms ! k) = int (length rows) \<and> jm_cols (ms ! k) = l_freeSize (m_dofMapperLocal st ! k)
      \<and> jm_entries (ms ! k) = se ! k" if "k < nP" for k
    using that by (simp add: ms_def)
  have count: "numLagrangeMult st' = int (length rows)"
  proof (cases "nP = 0")
    case True
    then have "rows = []" unfolding rows_def G_def nP_def by (rule no_patches_no_rows)
    with True show ?thesis by (simp add: numLagrangeMult_def ms ms_def)
  next
    case False
    then have "ms = ms ! 0 # tl ms" using len by (cases ms) simp_all
    then have "numLagrangeMult st' = jm_rows (ms ! 0)"
      by (metis list.simps(5) ms numLagrangeMult_def)
    with False nth [of 0] show ?thesis by simp
  qed
  have filtered: "filter (\<lambda>e. fst e = r) (se ! k) =
      (if r < length rows then rowContribution (rows ! r) k r else [])" if "k < nP" for k r
    using fold_addRow_entries [of rows 0 "replicate nP []" r] that
    by (simp add: se_def)
  have entries: "rowEntries ms r =
      (if r < length rows
       then concat (map (\<lambda>k. map (\<lambda>e. (k, fst (snd e), snd (snd e)))
              (rowContribution (rows ! r) k r)) [0 ..< nP])
       else [])" for r
  proof -
    have "map (\<lambda>k. map (\<lambda>e. (k, fst (snd e), snd (snd e)))
              (filter (\<lambda>e. fst e = r) (jm_entries (ms ! k)))) [0 ..< nP] =
        map (\<lambda>k. map (\<lambda>e. (k, fst (snd e), snd (snd e)))
              (if r < length rows then rowContribution (rows ! r) k r else [])) [0 ..< nP]"
      by (rule map_cong) (simp_all only: nth filtered set_upt atLeastLessThan_iff)
    then have eq: "rowEntries ms r =
        concat (map (\<lambda>k. map (\<lambda>e. (k, fst (snd e), snd (snd e)))
              (if r < length rows then rowContribution (rows ! r) k r else [])) [0 ..< nP])"
      unfolding rowEntries_def len by (rule arg_cong)
    show ?thesis
    proof (cases "r < length rows")
      case True
      with eq show ?thesis by (simp only: if_True)
    next
      case False
      with eq show ?thesis by simp
    qed
  qed
  have two: "\<exists>p1 c1 p2 c2.
      mset (rowEntries ms r) = {#(p1, c1, 1), (p2, c2, - 1)#}
      \<and> (p1, c1) \<noteq> (p2, c2) \<and> p1 < nP \<and> p2 < nP
      \<and> c1 < jm_cols (ms ! p1) \<and> c2 < jm_cols (ms ! p2)" if r: "r < length rows" for r
  proof -
    from r jumpRows_nth [of r fullyRedundant G] obtain g j1 j2 where
      g: "g \<in> set G" and j: "j1 < j2" "j2 < length g" and row: "rows ! r = (g ! j1, g ! j2)"
      unfolding rows_def by blast
    obtain p1 c1 where o1: "g ! j1 = (p1, c1)" by (cases "g ! j1")
    obtain p2 c2 where o2: "g ! j2 = (p2, c2)" by (cases "g ! j2")
    from g have dist: "distinct g" unfolding G_def by (rule couplingGroups_props(1) [OF init ok])
    from j dist have "g ! j1 \<noteq> g ! j2" by (simp add: nth_eq_iff_index_eq)
    with o1 o2 have differ: "(p1, c1) \<noteq> (p2, c2)" by simp
    from j o1 have "(p1, c1) \<in> set g" by (metis less_trans nth_mem)
    with g have b1: "p1 < nP \<and> c1 < l_freeSize (m_dofMapperLocal st ! p1)"
      unfolding G_def nP_def using couplingGroups_props(2) [OF init ok] by blast
    from j o2 have "(p2, c2) \<in> set g" by (metis nth_mem)
    with g have b2: "p2 < nP \<and> c2 < l_freeSize (m_dofMapperLocal st ! p2)"
      unfolding G_def nP_def using couplingGroups_props(2) [OF init ok] by blast
    from row o1 o2 have "rows ! r = ((p1, c1), (p2, c2))" by simp
    from rowEntries_result [OF this, of nP r] b1 b2 r
    have m: "mset (rowEntries ms r) = {#(p1, c1, 1), (p2, c2, - 1)#}" by (simp add: entries)
    from b1 b2 nth have cols: "c1 < jm_cols (ms ! p1)" "c2 < jm_cols (ms ! p2)" by simp_all
    from m differ b1 b2 cols
    have "mset (rowEntries ms r) = {#(p1, c1, 1), (p2, c2, - 1)#}
      \<and> (p1, c1) \<noteq> (p2, c2) \<and> p1 < nP \<and> p2 < nP
      \<and> c1 < jm_cols (ms ! p1) \<and> c2 < jm_cols (ms ! p2)" by blast
    then show ?thesis by blast
  qed
  have zero: "sum_list (map (\<lambda>e. snd (snd e)) (rowEntries ms r)) = 0" if r: "r < length rows" for r
  proof -
    from two [OF r] obtain p1 c1 p2 c2 where
      m: "mset (rowEntries ms r) = {#(p1, c1, 1), (p2, c2, - 1 :: real)#}" by blast
    have "sum_list (map (\<lambda>e. snd (snd e)) (rowEntries ms r)) =
        sum_mset (image_mset (\<lambda>e. snd (snd e)) (mset (rowEntries ms r)))"
      by (metis mset_map sum_mset_sum_list)
    with m show ?thesis by simp
  qed
  have none: "rowEntries ms r = []" if "length rows \<le> r" for r
    using that by (simp add: entries)
  show ?thesis
    unfolding ms count nP_def [symmetric]
    using len nth two zero none by simp
qed

theorem jump_matrix_rows_witness:
  "initialized ex_state \<and> dofMapper_ok (m_dofMapperGlobal ex_state)
   \<and> errorOf (computeJumpMatrices False False ex_state) = None
   \<and> map jm_entries (m_jumpMatrices (projr (computeJumpMatrices False False ex_state))) =
       [[(0, 0, 1), (1, 1, 1)], [(0, 0, - 1), (1, 2, - 1)]]
   \<and> map jm_rows (m_jumpMatrices (projr (computeJumpMatrices False False ex_state))) = [2, 2]
   \<and> map jm_cols (m_jumpMatrices (projr (computeJumpMatrices False False ex_state))) = [2, 4]
   \<and> rowEntries (m_jumpMatrices (projr (computeJumpMatrices False False ex_state))) 0 =
       [(0, 0, 1), (1, 0, - 1)]
   \<and> rowEntries (m_jumpMatrices (projr (computeJumpMatrices False False ex_state))) 1 =
       [(0, 1, 1), (1, 2, - 1)]
   \<and> length (m_jumpMatrices (projr (computeJumpMatrices False False ex_state))) =
       numPatches (m_dofMapperGlobal ex_state)
   \<and> sum_list (map (\<lambda>e. snd (snd e))
         (rowEntries (m_jumpMatrices (projr (computeJumpMatrices False False ex_state))) 1)) = 0"
proof -
  have init: "initialized ex_state" by code_simp
  have ok: "dofMapper_ok (m_dofMapperGlobal ex_state)" by code_simp
  have run: "errorOf (computeJumpMatrices False False ex_state) = None" by code_simp
  have seen: "map jm_entries (m_jumpMatrices (projr (computeJumpMatrices False False ex_state))) =
       [[(0, 0, 1), (1, 1, 1)], [(0, 0, - 1), (1, 2, - 1)]]
   \<and> map jm_rows (m_jumpMatrices (projr (computeJumpMatrices False False ex_state))) = [2, 2]
   \<and> map jm_cols (m_jumpMatrices (projr (computeJumpMatrices False False ex_state))) = [2, 4]
   \<and> rowEntries (m_jumpMatrices (projr (computeJumpMatrices False False ex_state))) 0 =
       [(0, 0, 1), (1, 0, - 1)]
   \<and> rowEntries (m_jumpMatrices (projr (computeJumpMatrices False False ex_state))) 1 =
       [(0, 1, 1), (1, 2, - 1)]"
    by code_simp
  have rows: "numLagrangeMult (projr (computeJumpMatrices False False ex_state)) = 2"
    by code_simp
  note inst = jump_matrix_rows [OF init ok errorOf_None [OF run]]
  from inst have len: "length (m_jumpMatrices (projr (computeJumpMatrices False False ex_state))) =
       numPatches (m_dofMapperGlobal ex_state)" by blast
  from inst have "int 1 < numLagrangeMult (projr (computeJumpMatrices False False ex_state)) \<longrightarrow>
      sum_list (map (\<lambda>e. snd (snd e))
         (rowEntries (m_jumpMatrices (projr (computeJumpMatrices False False ex_state))) 1)) = 0"
    by blast
  with rows have "sum_list (map (\<lambda>e. snd (snd e))
         (rowEntries (m_jumpMatrices (projr (computeJumpMatrices False False ex_state))) 1)) = 0"
    by simp
  with init ok run seen len show ?thesis by blast
qed

subsection \<open>Excluding the corners\<close>

lemma theoretical_with_empty:
  "sum_list (map (theoreticalCount False) G) =
     int (sum_list (map (rowsOfGroup False) G)) - int (length (filter (\<lambda>g. g = []) G))"
proof (induction G)
  case Nil
  show ?case by simp
next
  case (Cons g G)
  show ?case
  proof (cases "g = []")
    case True
    with Cons show ?thesis by (simp add: theoreticalCount_def rowsOfGroup_def jumpPairs_def)
  next
    case False
    then have "theoreticalCount False g = int (rowsOfGroup False g)"
      by (simp add: rowsOfGroup_theoretical)
    with False Cons show ?thesis by simp
  qed
qed

text \<open>
  With \<^verbatim>\<open>excludeCorners\<close> and without full redundancy, one coupled corner is enough for
  the final check to fail: the count has \<open>-1\<close> for the emptied group.
\<close>

lemma exclude_corners_minimal_error:
  assumes "m_status st AND 1 \<noteq> 0" and "m_status st AND 4 = 0"
    and c: "c < coupledSize (m_dofMapperGlobal st)" and corner: "cornerCoupled st c"
  shows "computeJumpMatrices False True st = Inl InternalInvariantViolation"
proof -
  let ?G = "couplingGroups True st"
  from c corner have "[] \<in> set ?G" by (auto simp: couplingGroups_def image_iff intro!: bexI [of _ c])
  then have "filter (\<lambda>g. g = []) ?G \<noteq> []" by (simp add: filter_empty_conv)
  then have "0 < length (filter (\<lambda>g. g = []) ?G)" by simp
  then have "sum_list (map (theoreticalCount False) ?G) < int (sum_list (map (rowsOfGroup False) ?G))"
    by (simp add: theoretical_with_empty)
  then have "int (length (jumpRows False ?G)) \<noteq> sum_list (map (theoreticalCount False) ?G)"
    by (simp add: length_jumpRows)
  with assms(1,2) show ?thesis by (simp add: computeJumpMatrices_eq)
qed

text \<open>
  With full redundancy the exclusion works: the call succeeds, and each purged group of
  size \<open>n\<close> takes \<open>n (n - 1) / 2\<close> multipliers away.
\<close>

lemma redundant_count_le:
  "sum_list (map (rowsOfGroup True) (map (\<lambda>c. if P c then [] else F c) cs))
     \<le> sum_list (map (rowsOfGroup True) (map F cs))"
  by (induction cs) (simp_all add: rowsOfGroup_def jumpPairs_def)

lemma redundant_count_less:
  assumes "c \<in> set cs" and "P c" and "2 \<le> length (F c)"
  shows "sum_list (map (rowsOfGroup True) (map (\<lambda>c. if P c then [] else F c) cs))
     < sum_list (map (rowsOfGroup True) (map F cs))"
  using assms(1)
proof (induction cs)
  case Nil
  then show ?case by simp
next
  case (Cons a cs)
  show ?case
  proof (cases "a = c")
    case True
    have "rowsOfGroup True [] = 0" by (simp add: rowsOfGroup_def jumpPairs_def)
    moreover have "0 < rowsOfGroup True (F c)"
    proof -
      from assms(3) have "(0, 1) \<in> set (jumpPairs True (int (length (F c))))"
        by (simp add: set_jumpPairs_redundant)
      then have "jumpPairs True (int (length (F c))) \<noteq> []" by auto
      then show ?thesis by (simp add: rowsOfGroup_def)
    qed
    ultimately show ?thesis
      using True assms(2) redundant_count_le [of P F cs] by simp
  next
    case False
    with Cons have "sum_list (map (rowsOfGroup True) (map (\<lambda>c. if P c then [] else F c) cs))
        < sum_list (map (rowsOfGroup True) (map F cs))" by simp
    moreover have "rowsOfGroup True (if P a then [] else F a) \<le> rowsOfGroup True (F a)"
      by (simp add: rowsOfGroup_def jumpPairs_def)
    ultimately show ?thesis by simp
  qed
qed

lemma exclude_corners_redundant:
  assumes flags: "m_status st AND 1 \<noteq> 0" "m_status st AND 4 = 0"
    and without: "computeJumpMatrices True False st = Inr st1"
    and c: "c < coupledSize (m_dofMapperGlobal st)" and corner: "cornerCoupled st c"
  shows "\<exists>st2. computeJumpMatrices True True st = Inr st2
           \<and> numLagrangeMult st2 < numLagrangeMult st1"
proof -
  let ?dm = "m_dofMapperGlobal st"
  let ?G0 = "couplingGroups False st"
  let ?G1 = "couplingGroups True st"
  have eq: "int (length (jumpRows True G)) = sum_list (map (theoreticalCount True) G)" for G
    using realized_eq_theoretical [of G True] by (simp add: length_jumpRows)
  from without flags have sizes: "\<forall>g\<in>set ?G0. 1 < length g"
    by (simp add: computeJumpMatrices_eq split: if_splits)
  from c have "occurrences st c \<in> set ?G0" by (auto simp: couplingGroups_def)
  with sizes have two: "2 \<le> length (occurrences st c)" by auto
  from c have patches: "numPatches ?dm \<noteq> 0"
  proof -
    from two have "occurrences st c \<noteq> []" by auto
    then have "allDofs ?dm \<noteq> []" by (auto simp: occurrences_def)
    then show ?thesis by (auto simp: allDofs_def)
  qed
  define rows where "rows = (\<lambda>ec. jumpRows True (couplingGroups ec st))"
  have result: "computeJumpMatrices True ec st = Inr st' \<Longrightarrow>
      numLagrangeMult st' = int (length (rows ec))" for ec st'
    using patches flags eq [of "couplingGroups ec st"]
    by (auto simp: computeJumpMatrices_eq numLagrangeMult_def rows_def upt_conv_Cons
        split: if_splits)
  obtain st2 where with_ec: "computeJumpMatrices True True st = Inr st2"
    using flags eq [of ?G1] by (simp add: computeJumpMatrices_eq)
  have "length (rows True) < length (rows False)"
    unfolding rows_def length_jumpRows couplingGroups_def
    using redundant_count_less [of c "[0 ..< coupledSize ?dm]" "cornerCoupled st" "occurrences st"]
      c corner two by simp
  with result [OF with_ec] result [OF without] with_ec show ?thesis by simp
qed

text \<open>
  C9 at the two squares, whose coupled dofs are both corners. Without \<^verbatim>\<open>excludeCorners\<close>
  the minimal build succeeds with 2 multipliers. With it, both groups are emptied, the
  count is \<open>-2\<close>, the loops emit no row, and the final check fails; with full redundancy
  the same call succeeds with 0 multipliers, fewer than the 2 without the exclusion.
\<close>

theorem exclude_corners_at_two_squares:
  "errorOf (computeJumpMatrices False False ex_state) = None
   \<and> numLagrangeMult (projr (computeJumpMatrices False False ex_state)) = 2
   \<and> findCoupling ex_state = [[(0, 0), (1, 0)], [(0, 1), (1, 2)]]
   \<and> eraseCorners ex_state (findCoupling ex_state) = [[], []]
   \<and> countLagrangeMult False True (eraseCorners ex_state (findCoupling ex_state)) 0 = Inr (- 2)
   \<and> fst (jumpEntries False (eraseCorners ex_state (findCoupling ex_state)) 2) = 0
   \<and> errorOf (computeJumpMatrices False True ex_state) = Some InternalInvariantViolation
   \<and> errorOf (computeJumpMatrices True True ex_state) = None
   \<and> numLagrangeMult (projr (computeJumpMatrices True True ex_state)) = 0
   \<and> numLagrangeMult (projr (computeJumpMatrices True False ex_state)) = 2"
  by code_simp

subsection \<open>Reconstruction of the global solution\<close>

lemma fold_assign_last:
  fixes R :: "'b list"
  defines "step \<equiv> \<lambda>P f v. (\<lambda>p R. if P p then R[f p := v p] else R)"
  shows "length (fold (step P f v) ps R) = length R
     \<and> (\<forall>g < length R. fold (step P f v) ps R ! g =
           (if filter (\<lambda>p. P p \<and> f p = g) ps = [] then R ! g
            else v (last (filter (\<lambda>p. P p \<and> f p = g) ps))))"
proof (induction ps arbitrary: R rule: rev_induct)
  case Nil
  show ?case by simp
next
  case (snoc p ps)
  have "fold (step P f v) (ps @ [p]) R = step P f v p (fold (step P f v) ps R)" by simp
  with snoc [of R] show ?case
    by (auto simp: step_def nth_list_update)
qed

lemma reconstruction_eq:
  "constructGlobalSolutionFromLocalSolutions st L =
     (if m_status st AND 1 = 0 then Inl SequencingError
      else if \<not> numPatches (m_dofMapperGlobal st) = length L then Inl ConfigurationError
      else Inr \<lparr>mx_cols = mx_cols (L ! 0),
                mx_row = fold (\<lambda>p R.
                    if l_is_free (m_dofMapperLocal st ! fst p) (snd p)
                       \<and> is_free (m_dofMapperGlobal st) (snd p) (fst p)
                    then R[index (m_dofMapperGlobal st) (snd p) (fst p) :=
                           mx_row (L ! fst p) ! l_index (m_dofMapperLocal st ! fst p) (snd p)]
                    else R)
                  (realDofs st)
                  (replicate (freeSize (m_dofMapperGlobal st)) (replicate (mx_cols (L ! 0)) 0))\<rparr>)"
proof -
  let ?dm = "m_dofMapperGlobal st"
  let ?g = "\<lambda>k i. (\<lambda>R :: real list list.
      if l_is_free (m_dofMapperLocal st ! k) i \<and> is_free ?dm i k
      then R[index ?dm i k := mx_row (L ! k) ! l_index (m_dofMapperLocal st ! k) i] else R)"
  have rows: "mx_row (fold (\<lambda>i result. if c i then result\<lparr>mx_row := (mx_row result)[a i := b i]\<rparr>
        else result) js M) = fold (\<lambda>i R. if c i then R[a i := b i] else R) js (mx_row M)
      \<and> mx_cols (fold (\<lambda>i result. if c i then result\<lparr>mx_row := (mx_row result)[a i := b i]\<rparr>
        else result) js M) = mx_cols M" for c a b js and M :: Matrix
    by (induction js arbitrary: M) simp_all
  have outer: "mx_row (fold (\<lambda>k result. fold (\<lambda>i result.
          if l_is_free (m_dofMapperLocal st ! k) i \<and> is_free ?dm i k
          then result\<lparr>mx_row := (mx_row result)[index ?dm i k :=
                 mx_row (L ! k) ! l_index (m_dofMapperLocal st ! k) i]\<rparr>
          else result) (js k) result) ks M) = fold (\<lambda>k. fold (?g k) (js k)) ks (mx_row M)
      \<and> mx_cols (fold (\<lambda>k result. fold (\<lambda>i result.
          if l_is_free (m_dofMapperLocal st ! k) i \<and> is_free ?dm i k
          then result\<lparr>mx_row := (mx_row result)[index ?dm i k :=
                 mx_row (L ! k) ! l_index (m_dofMapperLocal st ! k) i]\<rparr>
          else result) (js k) result) ks M) = mx_cols M" for js ks and M :: Matrix
    by (induction ks arbitrary: M) (simp_all add: rows)
  have nested: "fold (\<lambda>k. fold (?g k) (js k)) ks R =
      fold (\<lambda>p. ?g (fst p) (snd p)) (concat (map (\<lambda>k. map (Pair k) (js k)) ks)) R" for js ks R
    by (rule fold_nested)
  show ?thesis
    unfolding constructGlobalSolutionFromLocalSolutions_def Let_def realDofs_def
    by (simp add: Matrix.equality outer nested setZero_def)
qed

lemma reconstruction_rows:
  assumes "m_status st AND 1 \<noteq> 0" and "length L = numPatches (m_dofMapperGlobal st)"
  shows "\<exists>R. constructGlobalSolutionFromLocalSolutions st L = Inr R
     \<and> mx_cols R = mx_cols (L ! 0)
     \<and> length (mx_row R) = freeSize (m_dofMapperGlobal st)
     \<and> (\<forall>g < freeSize (m_dofMapperGlobal st). mx_row R ! g =
          (case writers st g of
             [] \<Rightarrow> replicate (mx_cols (L ! 0)) 0
           | w # ws \<Rightarrow> mx_row (L ! fst (last (w # ws)))
                        ! l_index (m_dofMapperLocal st ! fst (last (w # ws))) (snd (last (w # ws)))))"
proof -
  let ?dm = "m_dofMapperGlobal st"
  let ?P = "\<lambda>p. l_is_free (m_dofMapperLocal st ! fst p) (snd p) \<and> is_free ?dm (snd p) (fst p)"
  let ?f = "\<lambda>p. index ?dm (snd p) (fst p)"
  let ?v = "\<lambda>p. mx_row (L ! fst p) ! l_index (m_dofMapperLocal st ! fst p) (snd p)"
  let ?R0 = "replicate (freeSize ?dm) (replicate (mx_cols (L ! 0)) (0 :: real))"
  define R where "R = fold (\<lambda>p R. if ?P p then R[?f p := ?v p] else R) (realDofs st) ?R0"
  have w: "writers st g = filter (\<lambda>p. ?P p \<and> ?f p = g) (realDofs st)" for g
    by (simp add: writers_def case_prod_unfold conj_assoc)
  from fold_assign_last [of ?P ?f ?v "realDofs st" ?R0]
  have len: "length R = freeSize ?dm"
    and nth: "\<forall>g < freeSize ?dm. R ! g =
      (if writers st g = [] then ?R0 ! g else ?v (last (writers st g)))"
    unfolding R_def w by simp_all
  have "constructGlobalSolutionFromLocalSolutions st L = Inr \<lparr>mx_cols = mx_cols (L ! 0), mx_row = R\<rparr>"
    using assms by (simp add: reconstruction_eq R_def)
  moreover have "\<forall>g < freeSize ?dm. R ! g =
      (case writers st g of [] \<Rightarrow> replicate (mx_cols (L ! 0)) 0 | w # ws \<Rightarrow> ?v (last (w # ws)))"
    using nth by (auto split: list.splits)
  ultimately show ?thesis using len by simp
qed

lemma set_realDofs:
  "(k, i) \<in> set (realDofs st) \<longleftrightarrow>
     k < numPatches (m_dofMapperGlobal st) \<and> i < mb_size (m_multiBasis st) ! k"
  by (auto simp: realDofs_def image_iff)

lemma initialized_real_dof:
  assumes "initialized st" and "(k, i) \<in> set (realDofs st)"
  shows "k < numPatches (m_dofMapperGlobal st)" and "i < patchSize (m_dofMapperGlobal st) k"
    and "l_is_free (m_dofMapperLocal st ! k) i \<longleftrightarrow>
           \<not> is_boundary_index (m_dofMapperGlobal st) (index (m_dofMapperGlobal st) i k)"
proof -
  from assms(2) have k: "k < numPatches (m_dofMapperGlobal st)"
    and i: "i < mb_size (m_multiBasis st) ! k"
    by (simp_all add: set_realDofs)
  from k show "k < numPatches (m_dofMapperGlobal st)" .
  from assms(1) k have "mb_size (m_multiBasis st) ! k \<le> patchSize (m_dofMapperGlobal st) k"
    by (simp add: initialized_def list_all_iff)
  with i show p: "i < patchSize (m_dofMapperGlobal st) k" by simp
  from assms(1) k p show "l_is_free (m_dofMapperLocal st ! k) i \<longleftrightarrow>
           \<not> is_boundary_index (m_dofMapperGlobal st) (index (m_dofMapperGlobal st) i k)"
    by (simp add: initialized_local l_is_free_def nth_localMapperOf)
qed

lemma writers_nonempty:
  assumes init: "initialized st" and ok: "dofMapper_ok (m_dofMapperGlobal st)"
    and cover: "realDofs_cover st" and g: "g < freeSize (m_dofMapperGlobal st)"
  shows "writers st g \<noteq> []"
proof -
  let ?dm = "m_dofMapperGlobal st"
  from cover g have "\<exists>p \<in> set (realDofs st). index ?dm (snd p) (fst p) = g"
    by (simp add: realDofs_cover_def list_all_iff list_ex_iff case_prod_unfold)
  then obtain k i where
    p: "(k, i) \<in> set (realDofs st)" and idx: "index ?dm i k = g"
    by auto
  note d = initialized_real_dof [OF init p]
  note c = dofMapper_ok_dof [OF ok d(1) d(2)]
  from c(2) idx g have free: "is_free_index ?dm (index ?dm i k)" by simp
  with c(1) d(3) have "l_is_free (m_dofMapperLocal st ! k) i" by simp
  with free idx p have "(k, i) \<in> set (writers st g)"
    by (simp add: writers_def is_free_def)
  then show ?thesis by auto
qed

lemma writers_member:
  "p \<in> set (writers st g) \<Longrightarrow>
   p \<in> set (realDofs st) \<and> l_is_free (m_dofMapperLocal st ! fst p) (snd p)
   \<and> is_free (m_dofMapperGlobal st) (snd p) (fst p)
   \<and> index (m_dofMapperGlobal st) (snd p) (fst p) = g"
  by (auto simp: writers_def)

text \<open>
  C6. On an initialized mapper given one local vector per patch, the reconstruction
  returns a matrix with one row per free global dof: row \<open>g\<close> is the local row of the last
  real dof, in the order of the loops (patch by patch), that is free and has the global
  index \<open>g\<close>, and a zero row when there is none; no values are averaged. When moreover
  the global mapper keeps its contract and every free global dof is the image of a
  real dof, the reconstruction of a splitting of \<open>u\<close> is \<open>u\<close>.
\<close>

theorem reconstruction_round_trip:
  "(m_status st AND 1 \<noteq> 0 \<and> length localContribs = numPatches (m_dofMapperGlobal st) \<longrightarrow>
      (\<exists>result. constructGlobalSolutionFromLocalSolutions st localContribs = Inr result
         \<and> mx_cols result = mx_cols (localContribs ! 0)
         \<and> length (mx_row result) = freeSize (m_dofMapperGlobal st)
         \<and> (\<forall>g < freeSize (m_dofMapperGlobal st). mx_row result ! g =
              (case writers st g of
                 [] \<Rightarrow> replicate (mx_cols (localContribs ! 0)) 0
               | w # ws \<Rightarrow> mx_row (localContribs ! fst (last (w # ws)))
                    ! l_index (m_dofMapperLocal st ! fst (last (w # ws))) (snd (last (w # ws)))))))
   \<and> (initialized st \<and> dofMapper_ok (m_dofMapperGlobal st) \<and> realDofs_cover st
        \<and> splitting st u localContribs \<longrightarrow>
        constructGlobalSolutionFromLocalSolutions st localContribs = Inr u)"
proof (intro conjI impI)
  assume "m_status st AND 1 \<noteq> 0 \<and> length localContribs = numPatches (m_dofMapperGlobal st)"
  then show "\<exists>result. constructGlobalSolutionFromLocalSolutions st localContribs = Inr result
         \<and> mx_cols result = mx_cols (localContribs ! 0)
         \<and> length (mx_row result) = freeSize (m_dofMapperGlobal st)
         \<and> (\<forall>g < freeSize (m_dofMapperGlobal st). mx_row result ! g =
              (case writers st g of
                 [] \<Rightarrow> replicate (mx_cols (localContribs ! 0)) 0
               | w # ws \<Rightarrow> mx_row (localContribs ! fst (last (w # ws)))
                    ! l_index (m_dofMapperLocal st ! fst (last (w # ws))) (snd (last (w # ws)))))"
    using reconstruction_rows [of st localContribs] by simp
next
  let ?dm = "m_dofMapperGlobal st"
  assume h: "initialized st \<and> dofMapper_ok ?dm \<and> realDofs_cover st \<and> splitting st u localContribs"
  then have init: "initialized st" and ok: "dofMapper_ok ?dm" and cover: "realDofs_cover st"
    and split: "splitting st u localContribs" by simp_all
  from init have status: "m_status st AND 1 \<noteq> 0" by (simp add: initialized_def)
  from split have len: "length localContribs = numPatches ?dm"
    and pos: "0 < numPatches ?dm"
    and rows: "length (mx_row u) = freeSize ?dm"
    and shape: "\<forall>k < numPatches ?dm. mx_cols (localContribs ! k) = mx_cols u"
    and vals: "\<forall>p \<in> set (realDofs st).
        l_is_free (m_dofMapperLocal st ! fst p) (snd p) \<and> is_free ?dm (snd p) (fst p) \<longrightarrow>
        mx_row (localContribs ! fst p) ! l_index (m_dofMapperLocal st ! fst p) (snd p) =
          mx_row u ! index ?dm (snd p) (fst p)"
    by (auto simp: splitting_def list_all_iff)
  from shape pos have cols: "mx_cols (localContribs ! 0) = mx_cols u" by simp
  from reconstruction_rows [OF status len] obtain R where
    R: "constructGlobalSolutionFromLocalSolutions st localContribs = Inr R"
    and Rcols: "mx_cols R = mx_cols (localContribs ! 0)"
    and Rlen: "length (mx_row R) = freeSize ?dm"
    and Rnth: "\<forall>g < freeSize ?dm. mx_row R ! g =
          (case writers st g of
             [] \<Rightarrow> replicate (mx_cols (localContribs ! 0)) 0
           | w # ws \<Rightarrow> mx_row (localContribs ! fst (last (w # ws)))
                ! l_index (m_dofMapperLocal st ! fst (last (w # ws))) (snd (last (w # ws))))"
    by blast
  have "mx_row R ! g = mx_row u ! g" if g: "g < freeSize ?dm" for g
  proof -
    from writers_nonempty [OF init ok cover g] obtain w ws where ws: "writers st g = w # ws"
      by (cases "writers st g") auto
    define p where "p = last (w # ws)"
    have "p \<in> set (writers st g)" unfolding p_def ws by (rule last_in_set) simp
    note m = writers_member [OF this]
    from Rnth g ws have "mx_row R ! g =
        mx_row (localContribs ! fst p) ! l_index (m_dofMapperLocal st ! fst p) (snd p)"
      by (simp add: p_def)
    also from vals m have "\<dots> = mx_row u ! index ?dm (snd p) (fst p)" by blast
    also from m have "\<dots> = mx_row u ! g" by simp
    finally show ?thesis .
  qed
  with Rlen rows have "mx_row R = mx_row u" by (simp add: nth_equalityI)
  with Rcols cols have "R = u" by (simp add: Matrix.equality)
  with R show "constructGlobalSolutionFromLocalSolutions st localContribs = Inr u" by simp
qed

theorem reconstruction_round_trip_witness:
  "initialized ex_state \<and> dofMapper_ok (m_dofMapperGlobal ex_state) \<and> realDofs_cover ex_state
   \<and> splitting ex_state (matrixOf [10, 11, 12, 13])
        [matrixOf [12, 13], matrixOf [12, 10, 13, 11]]
   \<and> constructGlobalSolutionFromLocalSolutions ex_state
        [matrixOf [12, 13], matrixOf [12, 10, 13, 11]] = Inr (matrixOf [10, 11, 12, 13])
   \<and> writers ex_state 2 = [(0, 1), (1, 0)]
   \<and> writers ex_state 0 = [(1, 1)]
   \<and> mx_row (projr (constructGlobalSolutionFromLocalSolutions ex_state
        [matrixOf [1, 2], matrixOf [3, 4, 5, 6]])) = [[4], [6], [3], [5]]"
proof -
  have init: "initialized ex_state" by code_simp
  have ok: "dofMapper_ok (m_dofMapperGlobal ex_state)" by code_simp
  have cover: "realDofs_cover ex_state" by code_simp
  have split: "splitting ex_state (matrixOf [10, 11, 12, 13])
        [matrixOf [12, 13], matrixOf [12, 10, 13, 11]]" by code_simp
  have seen: "writers ex_state 2 = [(0, 1), (1, 0)] \<and> writers ex_state 0 = [(1, 1)]
      \<and> mx_row (projr (constructGlobalSolutionFromLocalSolutions ex_state
        [matrixOf [1, 2], matrixOf [3, 4, 5, 6]])) = [[4], [6], [3], [5]]"
    by code_simp
  from reconstruction_round_trip [of ex_state "[matrixOf [12, 13], matrixOf [12, 10, 13, 11]]"
      "matrixOf [10, 11, 12, 13]"] init ok cover split
  have "constructGlobalSolutionFromLocalSolutions ex_state
        [matrixOf [12, 13], matrixOf [12, 10, 13, 11]] = Inr (matrixOf [10, 11, 12, 13])"
    by blast
  with init ok cover split seen show ?thesis by blast
qed

subsection \<open>Artificial dofs in the reconstruction\<close>

lemma agree_on_real_rows:
  assumes "agree_on_real st A B" and "set ps \<subseteq> set (realDofs st)"
  shows "fold (\<lambda>p R.
              if l_is_free (m_dofMapperLocal st ! fst p) (snd p)
                 \<and> is_free (m_dofMapperGlobal st) (snd p) (fst p)
              then R[index (m_dofMapperGlobal st) (snd p) (fst p) :=
                     mx_row (A ! fst p) ! l_index (m_dofMapperLocal st ! fst p) (snd p)]
              else R) ps R0 =
         fold (\<lambda>p R.
              if l_is_free (m_dofMapperLocal st ! fst p) (snd p)
                 \<and> is_free (m_dofMapperGlobal st) (snd p) (fst p)
              then R[index (m_dofMapperGlobal st) (snd p) (fst p) :=
                     mx_row (B ! fst p) ! l_index (m_dofMapperLocal st ! fst p) (snd p)]
              else R) ps R0"
  using assms(2)
proof (induction ps arbitrary: R0)
  case Nil
  show ?case by simp
next
  case (Cons p ps)
  from Cons.prems have p: "p \<in> set (realDofs st)" and ps: "set ps \<subseteq> set (realDofs st)"
    by simp_all
  from assms(1) p have "l_is_free (m_dofMapperLocal st ! fst p) (snd p)
        \<and> is_free (m_dofMapperGlobal st) (snd p) (fst p) \<longrightarrow>
      mx_row (A ! fst p) ! l_index (m_dofMapperLocal st ! fst p) (snd p) =
      mx_row (B ! fst p) ! l_index (m_dofMapperLocal st ! fst p) (snd p)"
    by (auto simp: agree_on_real_def list_all_iff)
  with Cons.IH [OF ps] show ?case by simp
qed

lemma artificial_row_apart:
  assumes init: "initialized st" and k: "k < numPatches (m_dofMapperGlobal st)"
    and i: "i < mb_size (m_multiBasis st) ! k"
    and j: "mb_size (m_multiBasis st) ! k \<le> j" "j < patchSize (m_dofMapperGlobal st) k"
  shows "l_index (m_dofMapperLocal st ! k) i \<noteq> l_index (m_dofMapperLocal st ! k) j"
proof
  assume eq: "l_index (m_dofMapperLocal st ! k) i = l_index (m_dofMapperLocal st ! k) j"
  from init k have len: "length (m_dofMapperLocal st ! k) = patchSize (m_dofMapperGlobal st) k"
    by (simp add: initialized_local length_localMapperOf)
  from i j len have "i < length (m_dofMapperLocal st ! k)" "j < length (m_dofMapperLocal st ! k)"
    by simp_all
  from l_index_inj [OF this eq] i j show False by simp
qed

text \<open>
  C10. The reconstruction reads, from the local vector of patch \<open>k\<close>, the number of
  columns (of the first one) and the rows of the free real dofs, those among the first
  \<open>basisSize(k)\<close> declared dofs, and nothing else: two lists of as many local vectors with
  as many columns that agree on these rows give the same outcome, whatever their other
  rows hold. On an initialized mapper the row of an artificial dof of a patch (a declared
  index from \<open>basisSize(k)\<close> on) is never the row of a real dof of that patch, so the rows
  of the artificial dofs are among those that may differ.
\<close>

theorem artificial_dofs_noninterference:
  "(agree_on_real st A B \<longrightarrow>
      constructGlobalSolutionFromLocalSolutions st A =
        constructGlobalSolutionFromLocalSolutions st B)
   \<and> (initialized st \<and> k < numPatches (m_dofMapperGlobal st)
        \<and> i < mb_size (m_multiBasis st) ! k
        \<and> mb_size (m_multiBasis st) ! k \<le> j \<and> j < patchSize (m_dofMapperGlobal st) k \<longrightarrow>
        l_index (m_dofMapperLocal st ! k) i \<noteq> l_index (m_dofMapperLocal st ! k) j)"
proof (intro conjI impI)
  assume h: "agree_on_real st A B"
  then have len: "length A = length B" and cols: "mx_cols (A ! 0) = mx_cols (B ! 0)"
    by (simp_all add: agree_on_real_def)
  from agree_on_real_rows [OF h, of "realDofs st"] len cols
  show "constructGlobalSolutionFromLocalSolutions st A =
        constructGlobalSolutionFromLocalSolutions st B"
    by (simp add: reconstruction_eq)
next
  assume "initialized st \<and> k < numPatches (m_dofMapperGlobal st)
        \<and> i < mb_size (m_multiBasis st) ! k
        \<and> mb_size (m_multiBasis st) ! k \<le> j \<and> j < patchSize (m_dofMapperGlobal st) k"
  then show "l_index (m_dofMapperLocal st ! k) i \<noteq> l_index (m_dofMapperLocal st ! k) j"
    using artificial_row_apart [of st k i j] by simp
qed

theorem artificial_dofs_noninterference_witness:
  "agree_on_real art_state [matrixOf [1, 2, 100], matrixOf [3, 4, 200]]
                           [matrixOf [1, 2, - 7], matrixOf [3, 4, 0]]
   \<and> constructGlobalSolutionFromLocalSolutions art_state
        [matrixOf [1, 2, 100], matrixOf [3, 4, 200]] =
      constructGlobalSolutionFromLocalSolutions art_state
        [matrixOf [1, 2, - 7], matrixOf [3, 4, 0]]
   \<and> mx_row (projr (constructGlobalSolutionFromLocalSolutions art_state
        [matrixOf [1, 2, 100], matrixOf [3, 4, 200]])) = [[1], [4], [2], [3]]
   \<and> realDofs art_state = [(0, 0), (0, 1), (1, 0), (1, 1)]
   \<and> artificialDofs art_state = [(0, 2), (1, 2)]
   \<and> initialized art_state
   \<and> l_index (m_dofMapperLocal art_state ! 0) 2 = 2
   \<and> l_index (m_dofMapperLocal art_state ! 0) 1 \<noteq> l_index (m_dofMapperLocal art_state ! 0) 2"
proof -
  have agree: "agree_on_real art_state [matrixOf [1, 2, 100], matrixOf [3, 4, 200]]
                           [matrixOf [1, 2, - 7], matrixOf [3, 4, 0]]"
    by code_simp
  have init: "initialized art_state" by code_simp
  have seen: "mx_row (projr (constructGlobalSolutionFromLocalSolutions art_state
        [matrixOf [1, 2, 100], matrixOf [3, 4, 200]])) = [[1], [4], [2], [3]]
   \<and> realDofs art_state = [(0, 0), (0, 1), (1, 0), (1, 1)]
   \<and> artificialDofs art_state = [(0, 2), (1, 2)]
   \<and> l_index (m_dofMapperLocal art_state ! 0) 2 = 2"
    by code_simp
  have dims: "(0 :: nat) < numPatches (m_dofMapperGlobal art_state)
      \<and> (1 :: nat) < mb_size (m_multiBasis art_state) ! 0
      \<and> mb_size (m_multiBasis art_state) ! 0 \<le> (2 :: nat)
      \<and> (2 :: nat) < patchSize (m_dofMapperGlobal art_state) 0"
    by code_simp
  note inst = artificial_dofs_noninterference [of art_state
      "[matrixOf [1, 2, 100], matrixOf [3, 4, 200]]" "[matrixOf [1, 2, - 7], matrixOf [3, 4, 0]]"
      0 1 2]
  from inst agree have same: "constructGlobalSolutionFromLocalSolutions art_state
        [matrixOf [1, 2, 100], matrixOf [3, 4, 200]] =
      constructGlobalSolutionFromLocalSolutions art_state
        [matrixOf [1, 2, - 7], matrixOf [3, 4, 0]]" by blast
  from inst init dims have apart:
    "l_index (m_dofMapperLocal art_state ! 0) 1 \<noteq> l_index (m_dofMapperLocal art_state ! 0) 2"
    by blast
  from agree same seen init apart show ?thesis by blast
qed

subsection \<open>The sizes of the local mappers\<close>

lemma localMapperOf_eq:
  "localMapperOf dm k = map (\<lambda>i. is_boundary_index dm (index dm i k)) [0 ..< patchSize dm k]"
  by (rule nth_equalityI) (simp_all add: length_localMapperOf nth_localMapperOf)

lemma l_freeSize_localMapperOf:
  "l_freeSize (localMapperOf dm k) =
     length (filter (\<lambda>i. \<not> is_boundary_index dm (index dm i k)) [0 ..< patchSize dm k])"
  by (simp add: localMapperOf_eq l_freeSize_def filter_map comp_def)

lemma length_filter_pairs:
  "sum_list (map (\<lambda>k. length (filter (Q k) (js k))) ks) =
     length (filter (\<lambda>p. Q (fst p) (snd p)) (concat (map (\<lambda>k. map (Pair k) (js k)) ks)))"
  by (induction ks) (simp_all add: filter_map comp_def)

lemma indicator_sum:
  "sum_list (map (\<lambda>g. if a = g then 1 else 0) [0 ..< F]) = (if a < F then 1 else (0 :: nat))"
  by (induction F) auto

lemma count_by_value:
  "length (filter (\<lambda>x. f x < F) xs) =
     sum_list (map (\<lambda>g. length (filter (\<lambda>x. f x = g) xs)) [0 ..< F])"
proof (induction xs)
  case Nil
  show ?case by simp
next
  case (Cons x xs)
  have "sum_list (map (\<lambda>g. length (filter (\<lambda>x. f x = g) (x # xs))) [0 ..< F]) =
      sum_list (map (\<lambda>g. (if f x = g then 1 else 0) + length (filter (\<lambda>x. f x = g) xs)) [0 ..< F])"
    by (rule arg_cong [where f = sum_list]) simp
  also have "\<dots> = sum_list (map (\<lambda>g. if f x = g then 1 else 0) [0 ..< F])
      + sum_list (map (\<lambda>g. length (filter (\<lambda>x. f x = g) xs)) [0 ..< F])"
    by (rule sum_list_addf)
  also have "\<dots> = (if f x < F then 1 else 0) + length (filter (\<lambda>x. f x < F) xs)"
    by (simp only: indicator_sum Cons.IH)
  finally show ?case by simp
qed

lemma sum_of_positive:
  "(\<forall>x \<in> set xs. 1 \<le> m x) \<Longrightarrow>
   length xs \<le> sum_list (map m xs)
   \<and> (sum_list (map m xs) = length xs \<longleftrightarrow> (\<forall>x \<in> set xs. m x = (1 :: nat)))"
proof (induction xs)
  case Nil
  show ?case by simp
next
  case (Cons x xs)
  then have x: "1 \<le> m x" and IH: "length xs \<le> sum_list (map m xs)"
    "sum_list (map m xs) = length xs \<longleftrightarrow> (\<forall>x \<in> set xs. m x = 1)"
    by simp_all
  from x IH(1) have "m x + sum_list (map m xs) = Suc (length xs) \<longleftrightarrow>
      m x = 1 \<and> sum_list (map m xs) = length xs" by arith
  with x IH show ?case by simp
qed

lemma sum_local_free:
  assumes ok: "dofMapper_ok dm"
  shows "sum_list (map (\<lambda>k. l_freeSize (localMapperOf dm k)) [0 ..< numPatches dm]) =
         sum_list (map (multiplicity dm) [0 ..< freeSize dm])"
proof -
  have "sum_list (map (\<lambda>k. l_freeSize (localMapperOf dm k)) [0 ..< numPatches dm]) =
      length (filter (\<lambda>p. \<not> is_boundary_index dm (index dm (snd p) (fst p))) (allDofs dm))"
    unfolding l_freeSize_localMapperOf allDofs_def by (rule length_filter_pairs)
  also have "filter (\<lambda>p. \<not> is_boundary_index dm (index dm (snd p) (fst p))) (allDofs dm) =
      filter (\<lambda>p. index dm (snd p) (fst p) < freeSize dm) (allDofs dm)"
  proof (rule filter_cong [OF refl])
    fix p assume "p \<in> set (allDofs dm)"
    then have "fst p < numPatches dm" "snd p < patchSize dm (fst p)"
      using set_allDofs [of "fst p" "snd p" dm] by simp_all
    from dofMapper_ok_dof(1,2) [OF ok this]
    show "(\<not> is_boundary_index dm (index dm (snd p) (fst p))) =
        (index dm (snd p) (fst p) < freeSize dm)" by simp
  qed
  also have "length (filter (\<lambda>p. index dm (snd p) (fst p) < freeSize dm) (allDofs dm)) =
      sum_list (map (\<lambda>g. length (filter (\<lambda>p. index dm (snd p) (fst p) = g) (allDofs dm)))
        [0 ..< freeSize dm])"
    by (rule count_by_value)
  also have "(\<lambda>g. length (filter (\<lambda>p. index dm (snd p) (fst p) = g) (allDofs dm))) =
      multiplicity dm"
    by (simp add: fun_eq_iff multiplicity_def case_prod_unfold)
  finally show ?thesis .
qed

lemma multiplicity_positive:
  assumes "dofMapper_ok dm" and "g < freeSize dm"
  shows "1 \<le> multiplicity dm g"
proof -
  from assms have "\<exists>p \<in> set (allDofs dm). index dm (snd p) (fst p) = g"
    by (simp add: dofMapper_ok_def list_all_iff list_ex_iff case_prod_unfold)
  then have "filter (\<lambda>p. index dm (snd p) (fst p) = g) (allDofs dm) \<noteq> []"
    by (simp add: filter_empty_conv)
  then show ?thesis
    by (simp add: multiplicity_def case_prod_unfold Suc_le_eq)
qed

text \<open>
  C7 (amended). After a successful \<^verbatim>\<open>init\<close>, the local free size of every patch is at
  most its declared size. When the global mapper keeps its contract, the local free
  sizes add up to the number of free dofs counted once per patch they belong to, that
  is, the sum over the free global indices of the number of dofs with that index; this
  is at least the global free size, and equal to it exactly when every free global
  index belongs to one dof only, with or without artificial dofs.
\<close>

theorem local_free_sizes:
  assumes "init multiBasis dofMapperGlobal fixedPart st0 = Inr st"
  shows "(\<forall>k < numPatches dofMapperGlobal.
            l_freeSize (m_dofMapperLocal st ! k) \<le> patchSize dofMapperGlobal k)
     \<and> (dofMapper_ok dofMapperGlobal \<longrightarrow>
          sum_list (map l_freeSize (m_dofMapperLocal st)) =
            sum_list (map (multiplicity dofMapperGlobal) [0 ..< freeSize dofMapperGlobal])
          \<and> freeSize dofMapperGlobal \<le> sum_list (map l_freeSize (m_dofMapperLocal st))
          \<and> (sum_list (map l_freeSize (m_dofMapperLocal st)) = freeSize dofMapperGlobal \<longleftrightarrow>
               (\<forall>g < freeSize dofMapperGlobal. multiplicity dofMapperGlobal g = 1)))"
proof -
  let ?dm = dofMapperGlobal
  from init_initialized [OF assms] have init: "initialized st" and dm: "m_dofMapperGlobal st = ?dm"
    by simp_all
  then have local: "m_dofMapperLocal st = map (localMapperOf ?dm) [0 ..< numPatches ?dm]"
    by (simp add: initialized_def)
  have size: "l_freeSize (m_dofMapperLocal st ! k) \<le> patchSize ?dm k" if "k < numPatches ?dm" for k
    using that l_freeSize_le [of "localMapperOf ?dm k"] by (simp add: local length_localMapperOf)
  have total: "sum_list (map l_freeSize (m_dofMapperLocal st)) =
            sum_list (map (multiplicity ?dm) [0 ..< freeSize ?dm])
          \<and> freeSize ?dm \<le> sum_list (map l_freeSize (m_dofMapperLocal st))
          \<and> (sum_list (map l_freeSize (m_dofMapperLocal st)) = freeSize ?dm \<longleftrightarrow>
               (\<forall>g < freeSize ?dm. multiplicity ?dm g = 1))"
    if ok: "dofMapper_ok ?dm"
  proof -
    have eq: "sum_list (map l_freeSize (m_dofMapperLocal st)) =
        sum_list (map (multiplicity ?dm) [0 ..< freeSize ?dm])"
      using sum_local_free [OF ok] by (simp add: local comp_def)
    have "\<forall>g \<in> set [0 ..< freeSize ?dm]. 1 \<le> multiplicity ?dm g"
      using multiplicity_positive [OF ok] by simp
    from sum_of_positive [OF this] eq show ?thesis by auto
  qed
  from size total show ?thesis by blast
qed

theorem local_free_sizes_witness:
  "errorOf (init ex_mb ex_dm [7, 9] ex_blank) = None
   \<and> dofMapper_ok ex_dm
   \<and> map l_freeSize (m_dofMapperLocal ex_state) = [2, 4]
   \<and> map (patchSize ex_dm) [0, 1] = [4, 4]
   \<and> map (multiplicity ex_dm) [0 ..< freeSize ex_dm] = [1, 1, 2, 2]
   \<and> sum_list (map l_freeSize (m_dofMapperLocal ex_state)) =
       sum_list (map (multiplicity ex_dm) [0 ..< freeSize ex_dm])
   \<and> freeSize ex_dm \<le> sum_list (map l_freeSize (m_dofMapperLocal ex_state))"
proof -
  have run: "errorOf (init ex_mb ex_dm [7, 9] ex_blank) = None" by code_simp
  have ok: "dofMapper_ok ex_dm" by code_simp
  have seen: "map l_freeSize (m_dofMapperLocal ex_state) = [2, 4]
      \<and> map (patchSize ex_dm) [0, 1] = [4, 4]
      \<and> map (multiplicity ex_dm) [0 ..< freeSize ex_dm] = [1, 1, 2, 2]"
    by code_simp
  from local_free_sizes [OF errorOf_None [OF run]] ok
  have "sum_list (map l_freeSize (m_dofMapperLocal ex_state)) =
       sum_list (map (multiplicity ex_dm) [0 ..< freeSize ex_dm])
   \<and> freeSize ex_dm \<le> sum_list (map l_freeSize (m_dofMapperLocal ex_state))"
    unfolding ex_state_def by blast
  with run ok seen show ?thesis by blast
qed

text \<open>
  C7, as stated, fails at the two squares: no patch declares an artificial dof, the local
  free sizes are 2 and 4, and the global mapper has 4 free dofs, of which the two on the
  shared edge are counted in both patches.
\<close>

theorem local_free_sizes_counterexample:
  "errorOf (init ex_mb ex_dm [7, 9] ex_blank) = None
   \<and> m_status ex_state AND 2 = 0
   \<and> map (patchSize (m_dofMapperGlobal ex_state)) [0, 1] = mb_size (m_multiBasis ex_state)
   \<and> artificialDofs ex_state = []
   \<and> sum_list (map l_freeSize (m_dofMapperLocal ex_state)) = 6
   \<and> freeSize (m_dofMapperGlobal ex_state) = 4"
  by code_simp

end
